theory Spec2Isabelle
  imports Main "HOL-Library.Finite_Map" "HOL-Library.Char_ord" "HOL-Library.List_Lexorder" "HOL-Library.Word" "HOL-Library.Sublist"
begin

section \<open>Strings and formatting helpers\<close>

text \<open>
  Go strings are byte sequences; they are modelled as \<open>string\<close> (lists of 8-bit
  characters). The library functions of package \<open>strings\<close> and \<open>fmt\<close> that the handlers
  call are written out here for the one-character separators the code uses.
\<close>

text \<open>\<open>strings.Split(s, sep)\<close> for a one-byte separator: always at least one field.\<close>

fun splitOn :: "char \<Rightarrow> string \<Rightarrow> string list" where
  "splitOn c [] = [[]]"
| "splitOn c (x # xs) =
     (if x = c then [] # splitOn c xs
      else (case splitOn c xs of [] \<Rightarrow> [[x]] | y # ys \<Rightarrow> (x # y) # ys))"

text \<open>\<open>strings.Trim(s, cutset)\<close>: strips leading and trailing bytes of the cut set.\<close>

definition trimSet :: "string \<Rightarrow> string \<Rightarrow> string" where
  "trimSet s cutset =
     rev (dropWhile (\<lambda>c. c \<in> set cutset) (rev (dropWhile (\<lambda>c. c \<in> set cutset) s)))"

text \<open>\<open>strings.Join(xs, sep)\<close>.\<close>

fun joinWith :: "string \<Rightarrow> string list \<Rightarrow> string" where
  "joinWith sep [] = []"
| "joinWith sep [x] = x"
| "joinWith sep (x # y # ys) = x @ sep @ joinWith sep (y # ys)"

text \<open>The verb \<open>%d\<close> of \<open>fmt.Sprintf\<close> on a non-negative integer: its decimal digits.\<close>

fun decimalNat :: "nat \<Rightarrow> string" where
  "decimalNat n =
     (if n < 10 then [''0123456789'' ! n]
      else decimalNat (n div 10) @ [''0123456789'' ! (n mod 10)])"

declare decimalNat.simps [simp del]

definition decimalInt :: "int \<Rightarrow> string" where
  "decimalInt i = (if i < 0 then CHR ''-'' # decimalNat (nat (- i)) else decimalNat (nat i))"

text \<open>
  Faults of the Go runtime that end a call without a result, and the two ways in which a
  loop of the sequential model never returns.
\<close>

datatype fault = NilDeref | IndexOutOfRange | SendOnClosed | Deadlock | OutOfFuel

section \<open>Request dispatch and validation (package handlers)\<close>

definition GetSupportedRequests :: "string \<Rightarrow> string list" where
  "GetSupportedRequests storage_type =
     (if storage_type = ''Database'' then [''GET'', ''PUT'', ''POST'', ''DELETE'']
      else if storage_type = ''Document'' then [''GET'', ''PUT'', ''DELETE'', ''PATCH'']
      else if storage_type = ''Collection'' then [''GET'', ''PUT'', ''DELETE'', ''POST'']
      else [])"

text \<open>
  \<open>path_length\<close> is a Go \<open>int\<close>; the test \<open>path_length%2 == 0\<close> is evenness, on which
  Go's truncated remainder and \<open>mod\<close> agree.
\<close>

definition GetStorageType :: "int \<Rightarrow> string" where
  "GetStorageType path_length =
     (if path_length = 1 then ''Database''
      else if path_length mod 2 = 0 then ''Document''
      else ''Collection'')"

definition GetStatusCode :: "string \<Rightarrow> nat \<times> bool" where
  "GetStatusCode status_class =
     (if status_class = ''Created'' then (201, True)
      else if status_class = ''Get'' then (200, True)
      else if status_class = ''Bad Request'' then (400, False)
      else if status_class = ''Overwritten'' then (200, True)
      else if status_class = ''Does Not Exist'' then (404, False)
      else if status_class = ''Internal Error'' then (400, False)
      else if status_class = ''Deleted'' then (204, True)
      else if status_class = ''Patched'' then (200, True)
      else if status_class = ''Document not overwritten'' then (412, False)
      else (400, False))"

text \<open>The result pair \<open>(bool, error)\<close>; the error is its message, \<open>None\<close> for \<open>nil\<close>.\<close>

definition RequestValid :: "string \<Rightarrow> string \<Rightarrow> bool \<Rightarrow> bool \<Rightarrow> bool \<Rightarrow> bool \<times> string option" where
  "RequestValid method storage_type slashEnd interval overwrite =
     (if method \<notin> set (GetSupportedRequests storage_type)
        then (False, Some ''invalid request type'')
      else if storage_type = ''Document'' \<and> (slashEnd \<or> interval)
        then (False, Some ''bad request path'')
      else if storage_type = ''Collection'' \<and> (\<not> slashEnd \<or> overwrite)
        then (False, Some ''bad request path'')
      else if storage_type = ''Database'' \<and>
              ((slashEnd \<and> (method = ''PUT'' \<or> method = ''DELETE'')) \<or> overwrite)
        then (False, Some ''bad request path'')
      else if storage_type = ''Database'' \<and>
              ((\<not> slashEnd \<and> (method = ''GET'' \<or> method = ''POST'')) \<or> overwrite)
        then (False, Some ''bad request path'')
      else (True, None))"

definition getInterval :: "string \<Rightarrow> string list" where
  "getInterval interval = splitOn CHR '','' (trimSet interval ''[]'')"

text \<open>
  The first phase of \<open>HandleStorage\<close>, from the request path to the verdict of
  \<open>RequestValid\<close>. \<open>intervalParam\<close> and \<open>mode\<close> are the values of the query parameters
  (empty when absent). The result is the status written at this point (\<open>Some 200\<close> for
  OPTIONS, \<open>Some 400\<close> for a rejected request) or \<open>None\<close> when the handler goes on to
  authorisation and the storage engine. Slicing \<open>[2:]\<close> a split with fewer than two
  fields, and reading \<open>interval_split[1]\<close> of an interval without a comma, panic.
\<close>

definition rawSegmentsOf :: "string \<Rightarrow> string list" where
  "rawSegmentsOf requestPath = drop 2 (splitOn CHR ''/'' requestPath)"

definition hasTrailingSlashOf :: "string \<Rightarrow> bool" where
  "hasTrailingSlashOf requestPath = (last (rawSegmentsOf requestPath) = '''')"

definition pathSegmentsOf :: "string \<Rightarrow> string list" where
  "pathSegmentsOf requestPath =
     (if hasTrailingSlashOf requestPath then butlast (rawSegmentsOf requestPath)
      else rawSegmentsOf requestPath)"

definition HandleStorage_validate ::
  "string \<Rightarrow> string \<Rightarrow> string \<Rightarrow> string \<Rightarrow> fault + nat option" where
  "HandleStorage_validate method requestPath intervalParam mode =
     (if length (splitOn CHR ''/'' requestPath) < 2 then Inl IndexOutOfRange
      else if rawSegmentsOf requestPath = [] then Inl IndexOutOfRange
      else
        let storageType = GetStorageType (int (length (pathSegmentsOf requestPath))) in
        if method = ''OPTIONS'' then Inr (Some 200)
        else if intervalParam \<noteq> '''' \<and> length (getInterval intervalParam) < 2
          then Inl IndexOutOfRange
        else
          let hasInterval = (intervalParam \<noteq> '''');
              noOverwrite = (mode = ''nooverwrite'');
              (isValid, err) =
                 RequestValid method storageType (hasTrailingSlashOf requestPath) hasInterval noOverwrite
          in if \<not> isValid then Inr (Some 400) else Inr None)"

subsection \<open>The validation matrix in the words of the specification\<close>

datatype kind = KDatabase | KDocument | KCollection

text \<open>Depth 1 is a Database, an even depth a Document, an odd depth above 1 a Collection.\<close>

definition spec_kind :: "nat \<Rightarrow> kind" where
  "spec_kind depth = (if depth = 1 then KDatabase else if even depth then KDocument else KCollection)"

definition spec_verbs :: "kind \<Rightarrow> string set" where
  "spec_verbs k =
     (case k of
        KDatabase \<Rightarrow> {''GET'', ''PUT'', ''POST'', ''DELETE''}
      | KDocument \<Rightarrow> {''GET'', ''PUT'', ''DELETE'', ''PATCH''}
      | KCollection \<Rightarrow> {''GET'', ''PUT'', ''POST'', ''DELETE''})"

definition spec_accepts :: "string \<Rightarrow> nat \<Rightarrow> bool \<Rightarrow> bool \<Rightarrow> bool \<Rightarrow> bool" where
  "spec_accepts verb depth slash interval nooverwrite =
     (verb \<in> spec_verbs (spec_kind depth) \<and>
      (case spec_kind depth of
         KDocument \<Rightarrow> \<not> slash \<and> \<not> interval
       | KCollection \<Rightarrow> slash \<and> \<not> nooverwrite
       | KDatabase \<Rightarrow>
           (if verb = ''PUT'' \<or> verb = ''DELETE'' then \<not> slash else slash) \<and> \<not> nooverwrite))"

section \<open>JSON values and the patch engine (packages jsondata and storage)\<close>

text \<open>
  A \<open>JSONValue\<close> wraps one of six shapes: an object (\<open>map[string]any\<close>, its keys in no
  order), an array, a boolean, a number, a string, or null. The number type is a
  parameter: the code compares numbers with \<open>==\<close> inside \<open>reflect.DeepEqual\<close>, and
  values decoded from JSON text never hold a NaN, so on them \<open>Equal\<close> is structural
  equality.
\<close>

datatype 'n JSONValue =
    JMap "(string, 'n JSONValue) fmap"
  | JSlice "'n JSONValue list"
  | JBool bool
  | JFloat64 'n
  | JString string
  | JNull

definition Equal :: "'n JSONValue \<Rightarrow> 'n JSONValue \<Rightarrow> bool" where
  "Equal j other = (j = other)"

record 'n Patch =
  Op :: string
  Path :: string
  Value :: "'n JSONValue"

text \<open>\<open>strings.ReplaceAll\<close> for a two-byte pattern and a one-byte replacement.\<close>

fun replaceAll2 :: "char \<Rightarrow> char \<Rightarrow> char \<Rightarrow> string \<Rightarrow> string" where
  "replaceAll2 a b c (x # y # zs) =
     (if x = a \<and> y = b then c # replaceAll2 a b c zs else x # replaceAll2 a b c (y # zs))"
| "replaceAll2 a b c xs = xs"

text \<open>Errors are the messages that \<open>fmt.Errorf\<close> builds; \<open>Inl\<close> carries the message.\<close>

definition parseJSONPointer :: "string \<Rightarrow> string + string list" where
  "parseJSONPointer pointer =
     (case pointer of
        [] \<Rightarrow> Inr []
      | c # rest \<Rightarrow>
          if c \<noteq> CHR ''/'' then Inl (''invalid JSON pointer: '' @ pointer)
          else Inr (map (\<lambda>segment.
                 replaceAll2 CHR ''~'' CHR ''0'' CHR ''~''
                   (replaceAll2 CHR ''~'' CHR ''1'' CHR ''/'' segment))
               (splitOn CHR ''/'' rest)))"

text \<open>
  \<open>modifyJSON\<close> with its \<open>navigatorModifyVisitor\<close>: at a non-terminal segment only an
  object is accepted, the child under the key is modified recursively, and a new object
  with the modified child is built.
\<close>

fun modifyJSON ::
  "'n JSONValue \<Rightarrow> string list \<Rightarrow> ('n JSONValue \<Rightarrow> string + 'n JSONValue)
     \<Rightarrow> string + 'n JSONValue" where
  "modifyJSON jsonDoc [] modifyFunc = modifyFunc jsonDoc"
| "modifyJSON jsonDoc (currentSegment # remainingSegments) modifyFunc =
     (case jsonDoc of
        JMap object \<Rightarrow>
          (case fmlookup object currentSegment of
             None \<Rightarrow> Inl (''key '' @ [CHR 0x27] @ currentSegment @ [CHR 0x27] @ '' not found in object'')
           | Some child \<Rightarrow>
               (case modifyJSON child remainingSegments modifyFunc of
                  Inl err \<Rightarrow> Inl err
                | Inr modifiedChild \<Rightarrow> Inr (JMap (fmupd currentSegment modifiedChild object))))
      | JSlice array \<Rightarrow> Inl ''unexpected array while navigating''
      | JBool b \<Rightarrow> Inl ''unexpected bool while navigating''
      | JFloat64 f \<Rightarrow> Inl ''unexpected number while navigating''
      | JString s \<Rightarrow> Inl ''unexpected string while navigating''
      | JNull \<Rightarrow> Inl ''unexpected null while navigating'')"

definition arrayModifyVisitor ::
  "('n JSONValue list \<Rightarrow> string + 'n JSONValue list) \<Rightarrow> 'n JSONValue \<Rightarrow> string + 'n JSONValue" where
  "arrayModifyVisitor modifyFunc currentValue =
     (case currentValue of
        JMap object \<Rightarrow> Inl ''expected array but found object''
      | JSlice array \<Rightarrow>
          (case modifyFunc array of Inl err \<Rightarrow> Inl err | Inr modifiedArray \<Rightarrow> Inr (JSlice modifiedArray))
      | JBool b \<Rightarrow> Inl ''expected array but found bool''
      | JFloat64 f \<Rightarrow> Inl ''expected array but found number''
      | JString s \<Rightarrow> Inl ''expected array but found string''
      | JNull \<Rightarrow> Inl ''expected array but found null'')"

definition objectModifyVisitor ::
  "((string, 'n JSONValue) fmap \<Rightarrow> string + (string, 'n JSONValue) fmap) \<Rightarrow> 'n JSONValue
     \<Rightarrow> string + 'n JSONValue" where
  "objectModifyVisitor modifyFunc currentValue =
     (case currentValue of
        JMap object \<Rightarrow>
          (case modifyFunc object of Inl err \<Rightarrow> Inl err | Inr modifiedObject \<Rightarrow> Inr (JMap modifiedObject))
      | JSlice array \<Rightarrow> Inl ''expected object but found array''
      | JBool b \<Rightarrow> Inl ''expected object but found bool''
      | JFloat64 f \<Rightarrow> Inl ''expected object but found number''
      | JString s \<Rightarrow> Inl ''expected object but found string''
      | JNull \<Rightarrow> Inl ''expected object but found null'')"

text \<open>The loop of \<open>applyArrayAdd\<close>: it returns at the first element equal to the new value.\<close>

fun arrayHasEqual :: "'n JSONValue list \<Rightarrow> 'n JSONValue \<Rightarrow> bool" where
  "arrayHasEqual [] newValue = False"
| "arrayHasEqual (element # rest) newValue =
     (if Equal element newValue then True else arrayHasEqual rest newValue)"

definition arrayAddModify :: "'n JSONValue \<Rightarrow> 'n JSONValue list \<Rightarrow> string + 'n JSONValue list" where
  "arrayAddModify newValue array =
     (if arrayHasEqual array newValue then Inr array else Inr (array @ [newValue]))"

text \<open>The loop of \<open>applyArrayRemove\<close>, with \<open>updatedArray\<close> as its accumulator.\<close>

fun arrayRemoveLoop :: "'n JSONValue \<Rightarrow> 'n JSONValue list \<Rightarrow> 'n JSONValue list \<Rightarrow> 'n JSONValue list" where
  "arrayRemoveLoop valueToRemove [] updatedArray = updatedArray"
| "arrayRemoveLoop valueToRemove (element # rest) updatedArray =
     (if \<not> Equal element valueToRemove
      then arrayRemoveLoop valueToRemove rest (updatedArray @ [element])
      else arrayRemoveLoop valueToRemove rest updatedArray)"

definition arrayRemoveModify :: "'n JSONValue \<Rightarrow> 'n JSONValue list \<Rightarrow> string + 'n JSONValue list" where
  "arrayRemoveModify valueToRemove array = Inr (arrayRemoveLoop valueToRemove array [])"

definition objectAddModify ::
  "string \<Rightarrow> 'n JSONValue \<Rightarrow> (string, 'n JSONValue) fmap \<Rightarrow> string + (string, 'n JSONValue) fmap" where
  "objectAddModify propertyKey newValue object =
     (case fmlookup object propertyKey of
        Some existing \<Rightarrow> Inr object
      | None \<Rightarrow> Inr (fmupd propertyKey newValue object))"

definition applyArrayAdd ::
  "'n JSONValue \<Rightarrow> string list \<Rightarrow> 'n JSONValue \<Rightarrow> string + 'n JSONValue" where
  "applyArrayAdd jsonDoc pathSegments newValue =
     (if length pathSegments = 0
      then Inl ''path refers to the whole document, which must be an array''
      else modifyJSON jsonDoc pathSegments (arrayModifyVisitor (arrayAddModify newValue)))"

definition applyArrayRemove ::
  "'n JSONValue \<Rightarrow> string list \<Rightarrow> 'n JSONValue \<Rightarrow> string + 'n JSONValue" where
  "applyArrayRemove jsonDoc pathSegments valueToRemove =
     (if length pathSegments = 0
      then Inl ''path refers to the whole document, which must be an array''
      else modifyJSON jsonDoc pathSegments (arrayModifyVisitor (arrayRemoveModify valueToRemove)))"

definition applyObjectAdd ::
  "'n JSONValue \<Rightarrow> string list \<Rightarrow> 'n JSONValue \<Rightarrow> string + 'n JSONValue" where
  "applyObjectAdd jsonDoc pathSegments newValue =
     (if length pathSegments = 0
      then Inl ''path refers to the whole document, which must be an object''
      else modifyJSON jsonDoc (butlast pathSegments)
             (objectModifyVisitor (objectAddModify (last pathSegments) newValue)))"

definition applyPatch :: "'n JSONValue \<Rightarrow> 'n Patch \<Rightarrow> string + 'n JSONValue" where
  "applyPatch jsonDoc patch =
     (case parseJSONPointer (Path patch) of
        Inl parseErr \<Rightarrow> Inl (''invalid JSON pointer: '' @ Path patch)
      | Inr segments \<Rightarrow>
          if Op patch = ''ArrayAdd'' then applyArrayAdd jsonDoc segments (Value patch)
          else if Op patch = ''ArrayRemove'' then applyArrayRemove jsonDoc segments (Value patch)
          else if Op patch = ''ObjectAdd'' then applyObjectAdd jsonDoc segments (Value patch)
          else Inl (''invalid operation: '' @ Op patch))"

text \<open>The loop of \<open>PatchRequest\<close> over the patch operations: it stops at the first error.\<close>

fun applyPatches :: "'n JSONValue \<Rightarrow> 'n Patch list \<Rightarrow> string + 'n JSONValue" where
  "applyPatches parsedJSONValue [] = Inr parsedJSONValue"
| "applyPatches parsedJSONValue (patchOp # rest) =
     (case applyPatch parsedJSONValue patchOp of
        Inl err \<Rightarrow> Inl err
      | Inr modified \<Rightarrow> applyPatches modified rest)"

subsection \<open>Reading a document along a path\<close>

text \<open>
  The value that a path of object keys leads to, navigating as \<open>modifyJSON\<close> does: only
  objects are entered.
\<close>

fun valueAt :: "'n JSONValue \<Rightarrow> string list \<Rightarrow> 'n JSONValue option" where
  "valueAt jsonDoc [] = Some jsonDoc"
| "valueAt jsonDoc (currentSegment # remainingSegments) =
     (case jsonDoc of
        JMap object \<Rightarrow>
          (case fmlookup object currentSegment of
             None \<Rightarrow> None
           | Some child \<Rightarrow> valueAt child remainingSegments)
      | JSlice array \<Rightarrow> None
      | JBool b \<Rightarrow> None
      | JFloat64 f \<Rightarrow> None
      | JString s \<Rightarrow> None
      | JNull \<Rightarrow> None)"

text \<open>
  Two documents agree outside a path when every path that is not a prefix of it leads to
  the same value in both.
\<close>

definition unchangedOutside :: "string list \<Rightarrow> 'n JSONValue \<Rightarrow> 'n JSONValue \<Rightarrow> bool" where
  "unchangedOutside p doc doc' = (\<forall>q. \<not> prefix q p \<longrightarrow> valueAt doc' q = valueAt doc q)"

section \<open>The subscription fabric (package subscription)\<close>

text \<open>
  A subscriber channel is a Go channel of strings: a queue with a fixed capacity that may
  have been closed. Channels are shared objects, so the handler's lists hold references
  (numbers) into a store of channels. The handler's lock serialises the calls; one call
  is modelled at a time.
\<close>

record chan =
  cap :: nat
  buf :: "string list"
  closed :: bool

record SubscriberHandler =
  clientChans :: "string \<rightharpoonup> nat list"
  chans :: "nat \<Rightarrow> chan"

text \<open>
  \<open>select { case client <- message: ... default: ... }\<close>: the send goes through when the
  queue has room, the default branch is taken when it is full, and sending on a closed
  channel panics.
\<close>

definition trySend :: "chan \<Rightarrow> string \<Rightarrow> fault + (chan \<times> bool)" where
  "trySend c message =
     (if closed c then Inl SendOnClosed
      else if length (buf c) < cap c then Inr (c\<lparr>buf := buf c @ [message]\<rparr>, True)
      else Inr (c, False))"

definition Register :: "SubscriberHandler \<Rightarrow> string \<Rightarrow> nat \<Rightarrow> SubscriberHandler \<times> string option" where
  "Register h resourceID clientChan =
     (case clientChans h resourceID of
        Some clients \<Rightarrow>
          if clientChan \<in> set clients then (h, Some ''channel already registered'')
          else (h\<lparr>clientChans := (clientChans h)(resourceID \<mapsto> clients @ [clientChan])\<rparr>, None)
      | None \<Rightarrow> (h\<lparr>clientChans := (clientChans h)(resourceID \<mapsto> [clientChan])\<rparr>, None))"

text \<open>The loop of \<open>Dispatch\<close> over the subscribers, counting the sends that failed.\<close>

fun sendAll :: "(nat \<Rightarrow> chan) \<Rightarrow> nat list \<Rightarrow> string \<Rightarrow> nat \<Rightarrow> fault + ((nat \<Rightarrow> chan) \<times> nat)" where
  "sendAll cs [] message failed = Inr (cs, failed)"
| "sendAll cs (client # rest) message failed =
     (case trySend (cs client) message of
        Inl f \<Rightarrow> Inl f
      | Inr (c', sent) \<Rightarrow>
          sendAll (cs(client := c')) rest message (if sent then failed else failed + 1))"

text \<open>\<open>now\<close> is the reading of \<open>time.Now().UnixNano()\<close> taken for the event id.\<close>

definition eventMessage :: "string \<Rightarrow> string \<Rightarrow> int \<Rightarrow> string" where
  "eventMessage eventType eventData now =
     ''event: '' @ eventType @ [CHR 0x0A] @ ''data: '' @ eventData @ [CHR 0x0A]
       @ ''id: '' @ decimalInt now @ [CHR 0x0A, CHR 0x0A]"

definition Dispatch ::
  "int \<Rightarrow> SubscriberHandler \<Rightarrow> string \<Rightarrow> string \<Rightarrow> bool \<Rightarrow> string
     \<Rightarrow> fault + (SubscriberHandler \<times> string option)" where
  "Dispatch now h resourceID eventData sameLevel eventType =
     (case clientChans h resourceID of
        None \<Rightarrow> Inr (h, Some ''no clients to notify'')
      | Some subscribers \<Rightarrow>
          if length subscribers = 0 then Inr (h, Some ''no clients to notify'')
          else
            (case sendAll (chans h) subscribers (eventMessage eventType eventData now) 0 of
               Inl f \<Rightarrow> Inl f
             | Inr (cs', failed) \<Rightarrow>
                 let h1 = h\<lparr>chans := cs'\<rparr>;
                     h2 = (if eventType = ''delete'' \<and> sameLevel
                           then h1\<lparr>clientChans := (clientChans h1)(resourceID := None)\<rparr>
                           else h1)
                 in if failed > 0
                    then Inr (h2, Some ''message dispatch failed to some clients'')
                    else Inr (h2, None)))"

definition HasClients :: "SubscriberHandler \<Rightarrow> string \<Rightarrow> bool" where
  "HasClients h resourceID =
     (case clientChans h resourceID of None \<Rightarrow> False | Some clients \<Rightarrow> length clients > 0)"

text \<open>\<open>append(clients[:i], clients[i+1:]...)\<close> at the first index holding the channel.\<close>

definition Unregister :: "SubscriberHandler \<Rightarrow> string \<Rightarrow> nat \<Rightarrow> SubscriberHandler" where
  "Unregister h resourceID clientChan =
     (case clientChans h resourceID of
        None \<Rightarrow> h
      | Some clients \<Rightarrow>
          let clients' = remove1 clientChan clients
          in if length clients' = 0
             then h\<lparr>clientChans := (clientChans h)(resourceID := None)\<rparr>
             else h\<lparr>clientChans := (clientChans h)(resourceID \<mapsto> clients')\<rparr>)"

subsection \<open>What a failed send is\<close>

text \<open>
  The subscribers of a path, and the condition under which one of the sends of a dispatch
  finds its channel full: some channel is sent to more often than it has free slots.
\<close>

definition subscribersOf :: "SubscriberHandler \<Rightarrow> string \<Rightarrow> nat list" where
  "subscribersOf h resourceID = (case clientChans h resourceID of None \<Rightarrow> [] | Some clients \<Rightarrow> clients)"

definition someSendFails :: "(nat \<Rightarrow> chan) \<Rightarrow> nat list \<Rightarrow> bool" where
  "someSendFails cs subscribers =
     (\<exists>c \<in> set subscribers. cap (cs c) < length (buf (cs c)) + count_list subscribers c)"

subsection \<open>A handler with one full and one empty channel\<close>

text \<open>\<open>NewHandler\<close> with empty channels of capacity 10, as \<open>HandleSubscription\<close> makes them.\<close>

definition newChan :: chan where
  "newChan = \<lparr>cap = 10, buf = [], closed = False\<rparr>"

definition NewHandler :: SubscriberHandler where
  "NewHandler = \<lparr>clientChans = Map.empty, chans = (\<lambda>c. newChan)\<rparr>"

definition fullChan :: chan where
  "fullChan = \<lparr>cap = 1, buf = [''pending''], closed = False\<rparr>"

definition twoClients :: SubscriberHandler where
  "twoClients =
     (fst (Register (fst (Register NewHandler ''/v1/db/doc'' 0)) ''/v1/db/doc'' 1))
       \<lparr>chans := (\<lambda>c. newChan)(0 := fullChan)\<rparr>"

section \<open>The ordered map (package skiplist)\<close>

text \<open>
  Nodes are heap objects that point to each other, so the list carries a store of nodes
  (\<open>nodes\<close>): a pointer is \<open>Some\<close> index into the store or \<open>None\<close> for \<open>nil\<close>, and
  \<open>InitializeNode\<close> allocates at the end of the store. Nodes are never freed; an unlinked
  node stays in the store, marked. The mutex of a node is the flag \<open>mu\<close>. A value
  pointer \<open>*V\<close> is modelled by the value it points to (\<open>None\<close> for \<open>nil\<close>).

  One operation runs at a time. In that setting a \<open>Lock\<close> on a mutex that is held never
  returns (fault \<open>Deadlock\<close>), and a retry (\<open>continue\<close>) of an outer loop starts again
  from the state it left. Every loop takes fuel; running out of it is the fault
  \<open>OutOfFuel\<close>. Levels are natural numbers, and the result \<open>-1\<close> of \<open>find\<close> is \<open>None\<close>.
  The operation counter is an \<open>atomic.Uint64\<close>, a 64-bit word.
\<close>

record ('k, 'v) SkipNode =
  mu :: bool
  nodeKey :: 'k
  nodeValue :: "'v option"
  maxLevel :: nat
  isMarked :: bool
  isFullyLinked :: bool
  nextNodes :: "nat option list"

record ('k, 'v) SkipList =
  slMaxLevel :: nat
  head :: nat
  tail :: nat
  opCount :: "64 word"
  maxKey :: 'k
  minKey :: 'k
  nodes :: "('k, 'v) SkipNode list"

definition InitializeNode :: "'k \<Rightarrow> 'v option \<Rightarrow> nat \<Rightarrow> ('k, 'v) SkipNode" where
  "InitializeNode key val level =
     \<lparr>mu = False, nodeKey = key, nodeValue = val, maxLevel = level, isMarked = False,
      isFullyLinked = False, nextNodes = replicate (level + 1) None\<rparr>"

definition NewSkipList :: "nat \<Rightarrow> 'k \<Rightarrow> 'k \<Rightarrow> ('k, 'v) SkipList" where
  "NewSkipList maxLvl minK maxK =
     \<lparr>slMaxLevel = maxLvl, head = 0, tail = 1, opCount = 0, maxKey = maxK, minKey = minK,
      nodes = [(InitializeNode minK None maxLvl)\<lparr>nextNodes := replicate (maxLvl + 1) (Some 1)\<rparr>,
               InitializeNode maxK None maxLvl]\<rparr>"

text \<open>
  \<open>randomLevel\<close>. \<open>coins\<close> lists the outcomes of the tests \<open>rand.Intn(2) == 0\<close> in the
  order in which they are made; past the end of the list the outcomes are false. A coin
  is only tossed while \<open>level < maxLevel - 1\<close>.
\<close>

fun randomLevelFrom :: "nat \<Rightarrow> nat \<Rightarrow> bool list \<Rightarrow> nat \<times> bool list" where
  "randomLevelFrom maxLvl level [] = (level, [])"
| "randomLevelFrom maxLvl level (c # coins) =
     (if level + 1 < maxLvl
      then (if c then randomLevelFrom maxLvl (level + 1) coins else (level, coins))
      else (level, c # coins))"

definition randomLevel :: "('k, 'v) SkipList \<Rightarrow> bool list \<Rightarrow> nat \<times> bool list" where
  "randomLevel sl coins = randomLevelFrom (slMaxLevel sl) 0 coins"

definition node :: "('k, 'v) SkipList \<Rightarrow> nat \<Rightarrow> ('k, 'v) SkipNode" where
  "node sl a = nodes sl ! a"

text \<open>\<open>a.nextNodes[level].Load()\<close> for a node \<open>a\<close> of the store.\<close>

definition loadNext :: "('k, 'v) SkipList \<Rightarrow> nat \<Rightarrow> nat \<Rightarrow> fault + nat option" where
  "loadNext sl a level =
     (if a < length (nodes sl) \<and> level < length (nextNodes (node sl a))
      then Inr (nextNodes (node sl a) ! level)
      else Inl IndexOutOfRange)"

text \<open>
  The inner loop of \<open>find\<close> and of the range scans:
  \<open>for key > current.nodeKey { predecessor = current; current = predecessor.nextNodes[level].Load() }\<close>.
\<close>

fun walk ::
  "nat \<Rightarrow> ('k::linorder, 'v) SkipList \<Rightarrow> nat \<Rightarrow> 'k \<Rightarrow> nat \<Rightarrow> nat option \<Rightarrow> fault + (nat \<times> nat)" where
  "walk 0 sl level key predecessor current = Inl OutOfFuel"
| "walk (Suc fuel) sl level key predecessor current =
     (case current of
        None \<Rightarrow> Inl NilDeref
      | Some c \<Rightarrow>
          if \<not> c < length (nodes sl) then Inl NilDeref
          else if key > nodeKey (node sl c)
          then (case loadNext sl c level of
                  Inl f \<Rightarrow> Inl f
                | Inr current' \<Rightarrow> walk fuel sl level key c current')
          else Inr (predecessor, c))"

text \<open>
  \<open>find\<close>: the levels from \<open>maxLevel\<close> down to 0. \<open>findFrom \<dots> (Suc level)\<close> handles
  \<open>level\<close> and goes on below it; the predecessor and successor of a level are put in front
  of those of the levels above, so that in the result position \<open>l\<close> holds level \<open>l\<close>.
\<close>

fun findFrom ::
  "nat \<Rightarrow> ('k::linorder, 'v) SkipList \<Rightarrow> 'k \<Rightarrow> nat \<Rightarrow> nat \<Rightarrow> nat option \<Rightarrow> nat list \<Rightarrow> nat list
     \<Rightarrow> fault + (nat option \<times> nat list \<times> nat list)" where
  "findFrom fuel sl key 0 predecessor foundLevel predecessors successors =
     Inr (foundLevel, predecessors, successors)"
| "findFrom fuel sl key (Suc level) predecessor foundLevel predecessors successors =
     (case loadNext sl predecessor level of
        Inl f \<Rightarrow> Inl f
      | Inr current0 \<Rightarrow>
          (case walk fuel sl level key predecessor current0 of
             Inl f \<Rightarrow> Inl f
           | Inr (predecessor', current) \<Rightarrow>
               findFrom fuel sl key level predecessor'
                 (if foundLevel = None \<and> key = nodeKey (node sl current) then Some level
                  else foundLevel)
                 (predecessor' # predecessors) (current # successors)))"

definition find ::
  "nat \<Rightarrow> ('k::linorder, 'v) SkipList \<Rightarrow> 'k \<Rightarrow> fault + (nat option \<times> nat list \<times> nat list)" where
  "find fuel sl key = findFrom fuel sl key (slMaxLevel sl + 1) (head sl) None [] []"

definition Find :: "nat \<Rightarrow> ('k::linorder, 'v) SkipList \<Rightarrow> 'k \<Rightarrow> fault + ('v option \<times> bool)" where
  "Find fuel sl key =
     (case find fuel sl key of
        Inl f \<Rightarrow> Inl f
      | Inr (foundLevel, predecessors, successors) \<Rightarrow>
          (case foundLevel of
             None \<Rightarrow> Inr (None, False)
           | Some lf \<Rightarrow>
               let foundNode = node sl (successors ! lf)
               in Inr (nodeValue foundNode,
                       isFullyLinked foundNode \<and> \<not> isMarked foundNode \<and> maxLevel foundNode = lf)))"

subsection \<open>Locks\<close>

definition setNode ::
  "('k, 'v) SkipList \<Rightarrow> nat \<Rightarrow> ('k, 'v) SkipNode \<Rightarrow> ('k, 'v) SkipList" where
  "setNode sl a n = sl\<lparr>nodes := (nodes sl)[a := n]\<rparr>"

definition lockNode :: "('k, 'v) SkipList \<Rightarrow> nat \<Rightarrow> fault + ('k, 'v) SkipList" where
  "lockNode sl a =
     (if \<not> a < length (nodes sl) then Inl NilDeref
      else if mu (node sl a) then Inl Deadlock
      else Inr (setNode sl a ((node sl a)\<lparr>mu := True\<rparr>)))"

definition unlockNode :: "('k, 'v) SkipList \<Rightarrow> nat \<Rightarrow> ('k, 'v) SkipList" where
  "unlockNode sl a = setNode sl a ((node sl a)\<lparr>mu := False\<rparr>)"

text \<open>\<open>for predecessor := range uniquePredecessorsLocked { predecessor.mu.Unlock() }\<close>\<close>

definition unlockAll :: "('k, 'v) SkipList \<Rightarrow> nat list \<Rightarrow> ('k, 'v) SkipList" where
  "unlockAll sl locked = fold (\<lambda>a s. unlockNode s a) locked sl"

text \<open>
  The loop that locks the distinct predecessors of the levels \<open>0..topLevel\<close> and validates
  each level; \<open>lockLoop n\<close> runs at most \<open>n\<close> iterations from \<open>level\<close>. The set
  \<open>uniquePredecessorsLocked\<close> is the list \<open>locked\<close>. The result is the store with the locks
  taken, the nodes locked, and \<open>valid\<close>.
\<close>

fun lockLoop ::
  "nat \<Rightarrow> ('k, 'v) SkipList \<Rightarrow> nat list \<Rightarrow> nat list \<Rightarrow> nat \<Rightarrow> nat list
     \<Rightarrow> fault + (('k, 'v) SkipList \<times> nat list \<times> bool)" where
  "lockLoop 0 sl predecessors successors level locked = Inr (sl, locked, True)"
| "lockLoop (Suc n) sl predecessors successors level locked =
     (if \<not> level < length predecessors \<or> \<not> level < length successors then Inl IndexOutOfRange
      else
        let predecessor = predecessors ! level in
        (case (if predecessor \<in> set locked then Inr (sl, locked)
               else (case lockNode sl predecessor of
                       Inl f \<Rightarrow> Inl f
                     | Inr sl' \<Rightarrow> Inr (sl', predecessor # locked))) of
           Inl f \<Rightarrow> Inl f
         | Inr (sl1, locked1) \<Rightarrow>
             (case loadNext sl1 predecessor level of
                Inl f \<Rightarrow> Inl f
              | Inr next \<Rightarrow>
                  let unmarked = (\<not> isMarked (node sl1 predecessor)
                                   \<and> \<not> isMarked (node sl1 (successors ! level)));
                      connected = (next = Some (successors ! level))
                  in if unmarked \<and> connected
                     then lockLoop n sl1 predecessors successors (level + 1) locked1
                     else Inr (sl1, locked1, False))))"

subsection \<open>Upsert\<close>

text \<open>
  An \<open>UpdateCheck\<close> receives the key, the current value and \<open>exists\<close>. It may change the
  current value in place, so its result has three parts: the current value after the call,
  the returned \<open>newValue\<close>, and the error (its message). A check that dereferences a
  \<open>nil\<close> current value panics.
\<close>

type_synonym ('k, 'v) UpdateCheck =
  "'k \<Rightarrow> 'v option \<Rightarrow> bool \<Rightarrow> fault + ('v option \<times> 'v option \<times> string option)"

definition setNext :: "('k, 'v) SkipList \<Rightarrow> nat \<Rightarrow> nat \<Rightarrow> nat option \<Rightarrow> ('k, 'v) SkipList" where
  "setNext sl a level p =
     setNode sl a ((node sl a)\<lparr>nextNodes := (nextNodes (node sl a))[level := p]\<rparr>)"

text \<open>
  The splice of a new node: allocate it, store the successors in its next pointers, store
  it in the next pointer of the predecessor of each of its levels, set \<open>isFullyLinked\<close>.
  Every index used here was read by the lock loop before, which panics when it is out of
  range.
\<close>

definition spliceNode ::
  "('k, 'v) SkipList \<Rightarrow> 'k \<Rightarrow> 'v \<Rightarrow> nat \<Rightarrow> nat list \<Rightarrow> nat list \<Rightarrow> ('k, 'v) SkipList" where
  "spliceNode sl key returnValue topLevel predecessors successors =
     (let newNode = length (nodes sl);
          sl1 = sl\<lparr>nodes := nodes sl @
                   [(InitializeNode key (Some returnValue) topLevel)
                      \<lparr>nextNodes := map (\<lambda>level. Some (successors ! level)) [0..<topLevel + 1]\<rparr>]\<rparr>;
          sl2 = fold (\<lambda>level s. setNext s (predecessors ! level) level (Some newNode))
                  [0..<topLevel + 1] sl1
      in setNode sl2 newNode ((node sl2 newNode)\<lparr>isFullyLinked := True\<rparr>))"

definition bumpOpCount :: "('k, 'v) SkipList \<Rightarrow> ('k, 'v) SkipList" where
  "bumpOpCount sl = sl\<lparr>opCount := opCount sl + 1\<rparr>"

definition unlockFound :: "('k, 'v) SkipList \<Rightarrow> nat option \<Rightarrow> ('k, 'v) SkipList" where
  "unlockFound sl nodeFound = (case nodeFound of None \<Rightarrow> sl | Some a \<Rightarrow> unlockNode sl a)"

text \<open>
  The first part of one iteration of \<open>Upsert\<close>, after \<open>find\<close>: lock the node found and
  check that it is still as \<open>find\<close> saw it, or take the random level for a new node. The
  result \<open>None\<close> stands for \<open>continue\<close>; otherwise it is \<open>nodeFound\<close>, \<open>topLevel\<close> and
  \<open>nodeValue\<close>.
\<close>

definition upsertLocate ::
  "('k, 'v) SkipList \<Rightarrow> nat option \<Rightarrow> nat list \<Rightarrow> nat
     \<Rightarrow> fault + (('k, 'v) SkipList \<times> (nat option \<times> nat \<times> 'v option) option)" where
  "upsertLocate sl levelFound successors randomTop =
     (case levelFound of
        Some lf \<Rightarrow>
          let nodeFound = successors ! lf in
          (case lockNode sl nodeFound of
             Inl f \<Rightarrow> Inl f
           | Inr sl1 \<Rightarrow>
               if isMarked (node sl1 nodeFound) \<or> \<not> isFullyLinked (node sl1 nodeFound)
                  \<or> maxLevel (node sl1 nodeFound) \<noteq> lf
               then Inr (unlockNode sl1 nodeFound, None)
               else Inr (sl1, Some (Some nodeFound, maxLevel (node sl1 nodeFound),
                                    nodeValue (node sl1 nodeFound))))
      | None \<Rightarrow> Inr (sl, Some (None, randomTop, None)))"

text \<open>The effect of a check that changes the value of a node in place.\<close>

definition setValue :: "('k, 'v) SkipList \<Rightarrow> nat \<Rightarrow> 'v option \<Rightarrow> ('k, 'v) SkipList" where
  "setValue sl a v = setNode sl a ((node sl a)\<lparr>nodeValue := v\<rparr>)"

text \<open>
  The rest of the iteration, from the call of the check on. The value that the check left
  in place of the current one is written to the node found. With the locks held:
  an error of the check releases the locks and is returned with \<open>true\<close>; a returned value
  is spliced in as a new node (the node found, if any, is not unlocked on this path);
  otherwise the node found is unlocked, which panics when there is none.
\<close>

definition upsertCommit ::
  "('k, 'v) SkipList \<Rightarrow> 'k \<Rightarrow> ('k, 'v) UpdateCheck \<Rightarrow> nat list \<Rightarrow> nat list \<Rightarrow> nat list
     \<Rightarrow> nat option \<Rightarrow> nat \<Rightarrow> 'v option
     \<Rightarrow> fault + (('k, 'v) SkipList \<times> bool \<times> string option)" where
  "upsertCommit sl key check predecessors successors locked nodeFound topLevel nodeVal =
     (case check key nodeVal (nodeFound \<noteq> None) of
        Inl f \<Rightarrow> Inl f
      | Inr (current', returnValue, err) \<Rightarrow>
          let sl1 = (case nodeFound of None \<Rightarrow> sl | Some a \<Rightarrow> setValue sl a current')
          in (case err of
                Some e \<Rightarrow> Inr (unlockFound (unlockAll sl1 locked) nodeFound, True, Some e)
              | None \<Rightarrow>
                  (case returnValue of
                     Some v \<Rightarrow>
                       Inr (bumpOpCount
                              (unlockAll (spliceNode sl1 key v topLevel predecessors successors) locked),
                            False, None)
                   | None \<Rightarrow>
                       (case nodeFound of
                          None \<Rightarrow> Inl NilDeref
                        | Some a \<Rightarrow>
                            Inr (bumpOpCount (unlockAll (unlockNode sl1 a) locked), True, None)))))"

fun Upsert ::
  "nat \<Rightarrow> bool list \<Rightarrow> ('k::linorder, 'v) SkipList \<Rightarrow> 'k \<Rightarrow> ('k, 'v) UpdateCheck
     \<Rightarrow> fault + (('k, 'v) SkipList \<times> bool \<times> string option)" where
  "Upsert 0 coins sl key check = Inl OutOfFuel"
| "Upsert (Suc fuel) coins sl key check =
     (if key \<le> minKey sl \<or> key \<ge> maxKey sl then Inr (sl, False, Some ''invalid key'')
      else
        (case find fuel sl key of
           Inl f \<Rightarrow> Inl f
         | Inr (levelFound, predecessors, successors) \<Rightarrow>
             let (randomTop, coins') =
                   (if levelFound = None then randomLevel sl coins else (0, coins))
             in (case upsertLocate sl levelFound successors randomTop of
                   Inl f \<Rightarrow> Inl f
                 | Inr (sl1, None) \<Rightarrow> Upsert fuel coins' sl1 key check
                 | Inr (sl1, Some (nodeFound, topLevel, nodeVal)) \<Rightarrow>
                     (case lockLoop (topLevel + 1) sl1 predecessors successors 0 [] of
                        Inl f \<Rightarrow> Inl f
                      | Inr (sl2, locked, valid) \<Rightarrow>
                          if \<not> valid
                          then Upsert fuel coins' (unlockFound (unlockAll sl2 locked) nodeFound)
                                 key check
                          else upsertCommit sl2 key check predecessors successors locked
                                 nodeFound topLevel nodeVal))))"

subsection \<open>Delete\<close>

text \<open>
  The unlinking loop, from the top level of the node down to 0:
  \<open>predecessors[level].nextNodes[level].Store(nodeToRemove.nextNodes[level].Load())\<close>;
  \<open>unlinkFrom \<dots> (Suc level)\<close> handles \<open>level\<close> and goes on below it.
\<close>

fun unlinkFrom ::
  "('k, 'v) SkipList \<Rightarrow> nat list \<Rightarrow> nat \<Rightarrow> nat \<Rightarrow> fault + ('k, 'v) SkipList" where
  "unlinkFrom sl predecessors nodeToRemove 0 = Inr sl"
| "unlinkFrom sl predecessors nodeToRemove (Suc level) =
     (case loadNext sl nodeToRemove level of
        Inl f \<Rightarrow> Inl f
      | Inr next \<Rightarrow>
          unlinkFrom (setNext sl (predecessors ! level) level next) predecessors nodeToRemove level)"

fun Delete ::
  "nat \<Rightarrow> ('k::linorder, 'v) SkipList \<Rightarrow> 'k \<Rightarrow> fault + (('k, 'v) SkipList \<times> bool \<times> string option)" where
  "Delete 0 sl key = Inl OutOfFuel"
| "Delete (Suc fuel) sl key =
     (case find fuel sl key of
        Inl f \<Rightarrow> Inl f
      | Inr (levelFound, predecessors, successors) \<Rightarrow>
          (case levelFound of
             None \<Rightarrow> Inr (sl, False, None)
           | Some lf \<Rightarrow>
               let nodeToRemove = successors ! lf in
               (case lockNode sl nodeToRemove of
                  Inl f \<Rightarrow> Inl f
                | Inr sl1 \<Rightarrow>
                    if isMarked (node sl1 nodeToRemove) \<or> \<not> isFullyLinked (node sl1 nodeToRemove)
                       \<or> maxLevel (node sl1 nodeToRemove) \<noteq> lf
                    then Inr (unlockNode sl1 nodeToRemove, False, None)
                    else
                      (case lockLoop (maxLevel (node sl1 nodeToRemove) + 1) sl1
                              predecessors successors 0 [] of
                         Inl f \<Rightarrow> Inl f
                       | Inr (sl2, locked, valid) \<Rightarrow>
                           if \<not> valid
                           then Delete fuel (unlockAll (unlockNode sl2 nodeToRemove) locked) key
                           else
                             (case unlinkFrom
                                     (setNode sl2 nodeToRemove
                                        ((node sl2 nodeToRemove)\<lparr>isMarked := True\<rparr>))
                                     predecessors nodeToRemove
                                     (maxLevel (node sl2 nodeToRemove) + 1) of
                                Inl f \<Rightarrow> Inl f
                              | Inr sl3 \<Rightarrow>
                                  Inr (bumpOpCount (unlockNode (unlockAll sl3 locked) nodeToRemove),
                                       True, None))))))"

subsection \<open>Range scans\<close>

text \<open>
  The descent of \<open>Query\<close> and \<open>QueryCopies\<close> from level \<open>maxLevel - 1\<close> down to 0;
  \<open>descend \<dots> (Suc level)\<close> handles \<open>level\<close> and goes on below it.
\<close>

fun descend :: "nat \<Rightarrow> ('k::linorder, 'v) SkipList \<Rightarrow> 'k \<Rightarrow> nat \<Rightarrow> nat \<Rightarrow> fault + nat" where
  "descend fuel sl startKey 0 predecessor = Inr predecessor"
| "descend fuel sl startKey (Suc level) predecessor =
     (case loadNext sl predecessor level of
        Inl f \<Rightarrow> Inl f
      | Inr current0 \<Rightarrow>
          (case walk fuel sl level startKey predecessor current0 of
             Inl f \<Rightarrow> Inl f
           | Inr (predecessor', current) \<Rightarrow> descend fuel sl startKey level predecessor'))"

text \<open>
  The collecting loop \<open>for current.nodeKey < endKey\<close>. Each value collected is paired with
  the key of its node, so that the keys of the values returned can be spoken about; the
  scans return the values only.
\<close>

fun collect ::
  "nat \<Rightarrow> ('k::linorder, 'v) SkipList \<Rightarrow> 'k \<Rightarrow> nat option \<Rightarrow> fault + ('k \<times> 'v) list" where
  "collect 0 sl endKey current = Inl OutOfFuel"
| "collect (Suc fuel) sl endKey current =
     (case current of
        None \<Rightarrow> Inl NilDeref
      | Some c \<Rightarrow>
          if \<not> c < length (nodes sl) then Inl NilDeref
          else if nodeKey (node sl c) < endKey
          then (case loadNext sl c 0 of
                  Inl f \<Rightarrow> Inl f
                | Inr next \<Rightarrow>
                    (case collect fuel sl endKey next of
                       Inl f \<Rightarrow> Inl f
                     | Inr rest \<Rightarrow>
                         Inr ((if isFullyLinked (node sl c) \<and> \<not> isMarked (node sl c)
                               then (case nodeValue (node sl c) of
                                       None \<Rightarrow> []
                                     | Some v \<Rightarrow> [(nodeKey (node sl c), v)])
                               else []) @ rest)))
          else Inr [])"

text \<open>
  One run of \<open>Query\<close>'s outer loop per unit of fuel: collect, read the operation counter,
  collect again, and return the first list when nothing changed in between.
\<close>

fun queryScan ::
  "nat \<Rightarrow> ('k::linorder, 'v) SkipList \<Rightarrow> 'k \<Rightarrow> 'k \<Rightarrow> fault + ('k \<times> 'v) list" where
  "queryScan 0 sl startKey endKey = Inl OutOfFuel"
| "queryScan (Suc fuel) sl startKey endKey =
     (case descend fuel sl startKey (slMaxLevel sl) (head sl) of
        Inl f \<Rightarrow> Inl f
      | Inr predecessor \<Rightarrow>
          (case loadNext sl predecessor 0 of
             Inl f \<Rightarrow> Inl f
           | Inr current \<Rightarrow>
               (case collect fuel sl endKey current of
                  Inl f \<Rightarrow> Inl f
                | Inr results \<Rightarrow>
                    let previousOpCount = opCount sl in
                    (case collect fuel sl endKey current of
                       Inl f \<Rightarrow> Inl f
                     | Inr resultsValidation \<Rightarrow>
                         let currentOpCount = opCount sl in
                         if previousOpCount = currentOpCount
                            \<and> map snd results = map snd resultsValidation
                         then Inr results
                         else queryScan fuel sl startKey endKey))))"

definition Query ::
  "nat \<Rightarrow> ('k::linorder, 'v) SkipList \<Rightarrow> 'k \<Rightarrow> 'k \<Rightarrow> fault + 'v list" where
  "Query fuel sl startKey endKey =
     (case queryScan fuel sl startKey endKey of Inl f \<Rightarrow> Inl f | Inr results \<Rightarrow> Inr (map snd results))"

text \<open>
  \<open>QueryCopies\<close>: the first collecting loop also copies each value and returns at once
  with the error of \<open>copyFunction\<close>. The loop yields the values with their keys and the
  copies.
\<close>

fun collectCopies ::
  "nat \<Rightarrow> ('k::linorder, 'v) SkipList \<Rightarrow> 'k \<Rightarrow> ('v \<Rightarrow> string + 'v) \<Rightarrow> nat option
     \<Rightarrow> ('k \<times> 'v) list \<Rightarrow> 'v list \<Rightarrow> fault + (string + ('k \<times> 'v) list \<times> 'v list)" where
  "collectCopies 0 sl endKey copyFunction current results resultsCopy = Inl OutOfFuel"
| "collectCopies (Suc fuel) sl endKey copyFunction current results resultsCopy =
     (case current of
        None \<Rightarrow> Inl NilDeref
      | Some c \<Rightarrow>
          if \<not> c < length (nodes sl) then Inl NilDeref
          else if nodeKey (node sl c) < endKey
          then
            (if isFullyLinked (node sl c) \<and> \<not> isMarked (node sl c)
             then (case nodeValue (node sl c) of
                     None \<Rightarrow>
                       (case loadNext sl c 0 of
                          Inl f \<Rightarrow> Inl f
                        | Inr next \<Rightarrow>
                            collectCopies fuel sl endKey copyFunction next results resultsCopy)
                   | Some v \<Rightarrow>
                       (case copyFunction v of
                          Inl err \<Rightarrow> Inr (Inl err)
                        | Inr valueCopy \<Rightarrow>
                            (case loadNext sl c 0 of
                               Inl f \<Rightarrow> Inl f
                             | Inr next \<Rightarrow>
                                 collectCopies fuel sl endKey copyFunction next
                                   (results @ [(nodeKey (node sl c), v)])
                                   (resultsCopy @ [valueCopy]))))
             else (case loadNext sl c 0 of
                     Inl f \<Rightarrow> Inl f
                   | Inr next \<Rightarrow>
                       collectCopies fuel sl endKey copyFunction next results resultsCopy))
          else Inr (Inr (results, resultsCopy)))"

text \<open>The result of \<open>copiesScan\<close> pairs each copy with the key of the node it came from.\<close>

fun copiesScan ::
  "nat \<Rightarrow> ('k::linorder, 'v) SkipList \<Rightarrow> 'k \<Rightarrow> 'k \<Rightarrow> ('v \<Rightarrow> string + 'v)
     \<Rightarrow> fault + (string + ('k \<times> 'v) list)" where
  "copiesScan 0 sl startKey endKey copyFunction = Inl OutOfFuel"
| "copiesScan (Suc fuel) sl startKey endKey copyFunction =
     (case descend fuel sl startKey (slMaxLevel sl) (head sl) of
        Inl f \<Rightarrow> Inl f
      | Inr predecessor \<Rightarrow>
          (case loadNext sl predecessor 0 of
             Inl f \<Rightarrow> Inl f
           | Inr current \<Rightarrow>
               (case collectCopies fuel sl endKey copyFunction current [] [] of
                  Inl f \<Rightarrow> Inl f
                | Inr (Inl err) \<Rightarrow> Inr (Inl err)
                | Inr (Inr (results, resultsCopy)) \<Rightarrow>
                    let previousOpCount = opCount sl in
                    (case collect fuel sl endKey current of
                       Inl f \<Rightarrow> Inl f
                     | Inr resultsValidation \<Rightarrow>
                         let currentOpCount = opCount sl in
                         if previousOpCount = currentOpCount
                            \<and> map snd results = map snd resultsValidation
                         then Inr (Inr (zip (map fst results) resultsCopy))
                         else copiesScan fuel sl startKey endKey copyFunction))))"

definition QueryCopies ::
  "nat \<Rightarrow> ('k::linorder, 'v) SkipList \<Rightarrow> 'k \<Rightarrow> 'k \<Rightarrow> ('v \<Rightarrow> string + 'v)
     \<Rightarrow> fault + (string + 'v list)" where
  "QueryCopies fuel sl startKey endKey copyFunction =
     (case copiesScan fuel sl startKey endKey copyFunction of
        Inl f \<Rightarrow> Inl f
      | Inr (Inl err) \<Rightarrow> Inr (Inl err)
      | Inr (Inr copies) \<Rightarrow> Inr (Inr (map snd copies)))"

subsection \<open>The checks of the package's tests, and a check that always returns a value\<close>

definition NewNoOverwriteCheck :: "'v \<Rightarrow> ('k, 'v) UpdateCheck" where
  "NewNoOverwriteCheck new_val key currVal exists =
     (if exists then Inr (currVal, None, Some ''Can't overwrite value'')
      else Inr (currVal, Some new_val, None))"

definition NewOverwriteCheck :: "'v \<Rightarrow> ('k, 'v) UpdateCheck" where
  "NewOverwriteCheck new_val key currVal exists =
     (if exists
      then (case currVal of None \<Rightarrow> Inl NilDeref | Some old \<Rightarrow> Inr (Some new_val, None, None))
      else Inr (currVal, Some new_val, None))"

definition replaceCheck :: "'v \<Rightarrow> ('k, 'v) UpdateCheck" where
  "replaceCheck new_val key currVal exists = Inr (currVal, Some new_val, None)"

subsection \<open>Well-formed lists\<close>

text \<open>
  The states in which the operations are studied. A node is live when it is in the store
  and not marked. In a well-formed list the head is live and has the key \<open>minKey\<close>, no
  live node is locked, and every next pointer of a live node that is not \<open>nil\<close> leads to a
  live node with a greater key that has the level of the pointer.
\<close>

definition live :: "('k, 'v) SkipList \<Rightarrow> nat \<Rightarrow> bool" where
  "live sl a = (a < length (nodes sl) \<and> \<not> isMarked (node sl a))"

definition linkOK :: "('k::linorder, 'v) SkipList \<Rightarrow> nat \<Rightarrow> nat \<Rightarrow> bool" where
  "linkOK sl a level =
     (case nextNodes (node sl a) ! level of
        None \<Rightarrow> True
      | Some b \<Rightarrow> live sl b \<and> nodeKey (node sl a) < nodeKey (node sl b)
                  \<and> level < length (nextNodes (node sl b)))"

definition nodeOK :: "('k::linorder, 'v) SkipList \<Rightarrow> nat \<Rightarrow> bool" where
  "nodeOK sl a =
     (isMarked (node sl a)
      \<or> (\<not> mu (node sl a) \<and> list_all (linkOK sl a) [0..<length (nextNodes (node sl a))]))"

definition sl_inv :: "('k::linorder, 'v) SkipList \<Rightarrow> bool" where
  "sl_inv sl =
     (live sl (head sl) \<and> nodeKey (node sl (head sl)) = minKey sl
      \<and> list_all (nodeOK sl) [0..<length (nodes sl)])"

subsection \<open>A list with three keys\<close>

text \<open>
  The list that holds the keys 10, 20 and 30 after three calls of \<open>Upsert\<close> on a new list
  with \<open>maxLevel\<close> 2; the second node gets level 1.
\<close>

definition fuel5 :: nat where
  "fuel5 = Suc (Suc (Suc (Suc (Suc 0))))"

definition upserted ::
  "('k::linorder, 'v) SkipList \<Rightarrow> bool list \<Rightarrow> 'k \<Rightarrow> ('k, 'v) UpdateCheck \<Rightarrow> ('k, 'v) SkipList" where
  "upserted sl coins key check =
     (case Upsert fuel5 coins sl key check of Inl f \<Rightarrow> sl | Inr (sl', updated, e) \<Rightarrow> sl')"

definition threeKeys :: "(int, string) SkipList" where
  "threeKeys =
     upserted (upserted (upserted (NewSkipList 2 0 100) [] 10 (NewNoOverwriteCheck ''ten''))
                 [True] 20 (NewNoOverwriteCheck ''twenty''))
       [] 30 (NewNoOverwriteCheck ''thirty'')"

text \<open>The copy function of the package's tests.\<close>

definition DeepCopy :: "'v \<Rightarrow> string + 'v" where
  "DeepCopy val = Inr val"

subsection \<open>States that differ in their locks only\<close>

definition locksOnly :: "('k, 'v) SkipList \<Rightarrow> ('k, 'v) SkipList \<Rightarrow> bool" where
  "locksOnly sl sl' =
     (sl'\<lparr>nodes := nodes sl\<rparr> = sl \<and> length (nodes sl') = length (nodes sl)
      \<and> (\<forall>a < length (nodes sl). (node sl' a)\<lparr>mu := False\<rparr> = (node sl a)\<lparr>mu := False\<rparr>))"

subsection \<open>Keys that the search does not meet\<close>

definition absent :: "nat \<Rightarrow> ('k::linorder, 'v) SkipList \<Rightarrow> 'k \<Rightarrow> bool" where
  "absent fuel sl key =
     (case find fuel sl key of
        Inl f \<Rightarrow> False
      | Inr (levelFound, predecessors, successors) \<Rightarrow> levelFound = None)"

subsection \<open>What \<open>find\<close> records for a level\<close>

text \<open>
  \<open>levelOK\<close>: the predecessor and the successor recorded for a level are live, the
  predecessor is the head or has a smaller key, its next pointer at the level is the
  successor, and the key of the successor is not smaller. \<open>foundOK\<close>: the level found is
  the one given, or, when none was given, a level among the first \<open>L\<close> whose successor has
  the key, and there is none only if no successor has it.
\<close>

definition levelOK :: "('k::linorder, 'v) SkipList \<Rightarrow> 'k \<Rightarrow> nat \<Rightarrow> nat \<Rightarrow> nat \<Rightarrow> bool" where
  "levelOK sl k p s j =
     (live sl p \<and> (p = head sl \<or> nodeKey (node sl p) < k)
      \<and> loadNext sl p j = Inr (Some s) \<and> live sl s \<and> k \<le> nodeKey (node sl s))"

definition foundOK ::
  "('k::linorder, 'v) SkipList \<Rightarrow> 'k \<Rightarrow> nat option \<Rightarrow> nat option \<Rightarrow> nat list \<Rightarrow> nat \<Rightarrow> bool" where
  "foundOK sl k fl fl' ts L =
     (case fl of
        Some l \<Rightarrow> fl' = fl
      | None \<Rightarrow>
          (case fl' of
             None \<Rightarrow> \<forall>j<L. nodeKey (node sl (ts ! j)) \<noteq> k
           | Some j \<Rightarrow> j < L \<and> nodeKey (node sl (ts ! j)) = k))"

subsection \<open>Upsert with a returned value on a key that is present\<close>

text \<open>
  The list \<open>threeKeys\<close> after \<open>Upsert\<close> on the key 20 with a check that returns a value, and
  the keys of the nodes of a list that are fully linked and not marked, in the order of
  the store.
\<close>

definition twentyTwice :: "(int, string) SkipList" where
  "twentyTwice = upserted threeKeys [] 20 (replaceCheck ''TWENTY'')"

definition liveKeys :: "('k, 'v) SkipList \<Rightarrow> 'k list" where
  "liveKeys sl = map nodeKey (filter (\<lambda>n. isFullyLinked n \<and> \<not> isMarked n) (nodes sl))"

definition deleted :: "('k::linorder, 'v) SkipList \<Rightarrow> 'k \<Rightarrow> ('k, 'v) SkipList" where
  "deleted sl key = (case Delete fuel5 sl key of Inl f \<Rightarrow> sl | Inr (sl', removed, e) \<Rightarrow> sl')"

text \<open>A list with the level 0 only, holding the key 10.\<close>

definition singleLevel :: "(int, string) SkipList" where
  "singleLevel = upserted (NewSkipList 0 0 100) [] 10 (NewNoOverwriteCheck ''ten'')"

section \<open>The resource tree (package storage)\<close>

text \<open>
  \<open>status\<close> is the pair of a status class and an error (its message). \<open>RequestPack\<close> is
  the interface through which the handlers read a request; its methods are the fields of a
  record. The validator of a request is a function from the value to the error it
  reports, if any.
\<close>

record status =
  status_class :: string
  status_err :: "string option"

record 'n RequestPack =
  GetType :: string
  GetPath :: "string list"
  GetContent :: string
  GetValidator :: "'n JSONValue \<Rightarrow> string option"
  GetUsername :: string
  GetStartKey :: string
  GetEndKey :: string
  GetNoOverwrite :: bool

record PutResponse =
  uri :: string

record PatchResponse =
  Uri :: string
  PatchFailed :: bool
  Message :: string

text \<open>
  The functions of \<open>encoding/json\<close> that the package calls are parameters of the model:
  decoding a body into a JSON value, decoding a body into a list of patches, and encoding
  a JSON value; \<open>None\<close> is their error.
\<close>

record 'n Codec =
  decodeJSON :: "string \<Rightarrow> 'n JSONValue option"
  decodePatches :: "string \<Rightarrow> 'n Patch list option"
  encodeJSON :: "'n JSONValue \<Rightarrow> string option"

record Metadata =
  CreatedBy :: string
  CreatedAt :: int
  LastModifiedBy :: string
  LastModifiedAt :: int

text \<open>
  A document holds the skip list of its collections and a collection the skip list of its
  documents. The type of the collections inside a document is a parameter \<open>'c\<close> of the
  model; the handlers of a collection never look inside it.
\<close>

record 'c Document =
  DocPath :: string
  Contents :: string
  Collections :: "(string, 'c) SkipList"
  Meta :: Metadata

record 'c Collection =
  ColPath :: string
  Name :: string
  Documents :: "(string, 'c Document) SkipList"

record 'd RootNode =
  Databases :: "(string, 'd) SkipList"

text \<open>The sentinel keys of every skip list of the tree: \<open>""\<close> and \<open>"\U0010FFFF"\<close> in UTF-8.\<close>

definition minSentinel :: string where
  "minSentinel = []"

definition maxSentinel :: string where
  "maxSentinel = [CHR 0xF4, CHR 0x8F, CHR 0xBF, CHR 0xBF]"

text \<open>
  \<open>NewDocument\<close>. The error of the first \<open>json.Unmarshal\<close> is dropped by the code, which
  leaves \<open>rawContent\<close> nil, the null value. \<open>now\<close> is the reading of
  \<open>time.Now().UnixMilli()\<close>.
\<close>

definition NewDocument ::
  "'n Codec \<Rightarrow> int \<Rightarrow> string \<Rightarrow> string \<Rightarrow> string \<Rightarrow> ('n JSONValue \<Rightarrow> string option)
     \<Rightarrow> string + 'c Document" where
  "NewDocument codec now path content createdBy validator =
     (let jsonVal = (case decodeJSON codec content of None \<Rightarrow> JNull | Some j \<Rightarrow> j)
      in case validator jsonVal of
           Some e \<Rightarrow> Inl e
         | None \<Rightarrow>
             Inr \<lparr>DocPath = path, Contents = content,
                  Collections = NewSkipList 10 minSentinel maxSentinel,
                  Meta = \<lparr>CreatedBy = createdBy, CreatedAt = now,
                          LastModifiedBy = createdBy, LastModifiedAt = now\<rparr>\<rparr>)"

definition Update :: "Metadata \<Rightarrow> int \<Rightarrow> string \<Rightarrow> Metadata" where
  "Update metadata now modifiedBy =
     metadata\<lparr>LastModifiedBy := modifiedBy, LastModifiedAt := now\<rparr>"

definition DocCheckNoOverwrite :: "'c Document \<Rightarrow> (string, 'c Document) UpdateCheck" where
  "DocCheckNoOverwrite newDoc key currValue exists =
     (if exists then Inr (currValue, None, Some ''document already exists'')
      else Inr (currValue, Some newDoc, None))"

text \<open>\<open>now\<close> is the reading of \<open>time.Now()\<close> inside the check.\<close>

definition DocCheckOverwrite :: "int \<Rightarrow> 'c Document \<Rightarrow> (string, 'c Document) UpdateCheck" where
  "DocCheckOverwrite now newDoc key currValue exists =
     (if exists
      then (case currValue of
              None \<Rightarrow> Inl NilDeref
            | Some d \<Rightarrow>
                Inr (Some (d\<lparr>Contents := Contents newDoc,
                             Meta := (Meta d)\<lparr>LastModifiedAt := now,
                                               LastModifiedBy := CreatedBy (Meta newDoc)\<rparr>\<rparr>),
                     None, None))
      else Inr (currValue, Some newDoc, None))"

definition PatchRequest ::
  "'n Codec \<Rightarrow> int \<Rightarrow> 'c Document \<Rightarrow> string \<Rightarrow> ('n JSONValue \<Rightarrow> string option) \<Rightarrow> string
     \<Rightarrow> string + 'c Document" where
  "PatchRequest codec now doc newContent jsonValidator authorName =
     (case decodeJSON codec (Contents doc) of
        None \<Rightarrow> Inl ''failed to unmarshal document content''
      | Some parsedJSONValue \<Rightarrow>
          (case decodePatches codec newContent of
             None \<Rightarrow> Inl ''failed to parse patch operations''
           | Some patchOperations \<Rightarrow>
               (case applyPatches parsedJSONValue patchOperations of
                  Inl e \<Rightarrow> Inl e
                | Inr patched \<Rightarrow>
                    (case jsonValidator patched of
                       Some validationErr \<Rightarrow>
                         Inl (''validation failed after applying patches: '' @ validationErr)
                     | None \<Rightarrow>
                         (case encodeJSON codec patched of
                            None \<Rightarrow> Inl ''failed to marshal modified document''
                          | Some modifiedJSONContent \<Rightarrow>
                              Inr (doc\<lparr>Meta := Update (Meta doc) now authorName,
                                        Contents := modifiedJSONContent\<rparr>))))))"

definition DocPatchCheck ::
  "'n Codec \<Rightarrow> int \<Rightarrow> string \<Rightarrow> ('n JSONValue \<Rightarrow> string option) \<Rightarrow> string
     \<Rightarrow> (string, 'c Document) UpdateCheck" where
  "DocPatchCheck codec now content validator name key currValue exists =
     (if exists
      then (case currValue of
              None \<Rightarrow> Inl NilDeref
            | Some d \<Rightarrow>
                (case PatchRequest codec now d content validator name of
                   Inl e \<Rightarrow> Inr (currValue, None, Some e)
                 | Inr d' \<Rightarrow> Inr (Some d', None, None)))
      else Inr (currValue, None, Some ''object does not exist at this path''))"

definition CollectionCheckNoOverwrite :: "'c \<Rightarrow> (string, 'c) UpdateCheck" where
  "CollectionCheckNoOverwrite newCol key currValue exists =
     (if exists then Inr (currValue, None, Some ''database exists already'')
      else Inr (currValue, Some newCol, None))"

text \<open>
  \<open>req.GetPath()[len(req.GetPath())-1]\<close>, the name of the child; it panics on an empty
  path.
\<close>

definition childNameOf :: "'n RequestPack \<Rightarrow> fault + string" where
  "childNameOf req = (if GetPath req = [] then Inl IndexOutOfRange else Inr (last (GetPath req)))"

subsection \<open>The handlers of a collection\<close>

text \<open>
  Each handler takes the fuel for the loops of the skip list and returns the collection
  after the call with what the Go method returns.
\<close>

definition Collection_HandleDelete ::
  "nat \<Rightarrow> 'c Collection \<Rightarrow> 'n RequestPack \<Rightarrow> fault + ('c Collection \<times> status)" where
  "Collection_HandleDelete fuel c req =
     (case childNameOf req of
        Inl f \<Rightarrow> Inl f
      | Inr childName \<Rightarrow>
          (case Delete fuel (Documents c) childName of
             Inl f \<Rightarrow> Inl f
           | Inr (docs, removed, e) \<Rightarrow>
               if \<not> removed
               then Inr (c\<lparr>Documents := docs\<rparr>,
                         \<lparr>status_class = ''Does Not Exist'',
                          status_err = Some (''Document does not exist '' @ childName @ '' not found'')\<rparr>)
               else Inr (c\<lparr>Documents := docs\<rparr>, \<lparr>status_class = ''Deleted'', status_err = None\<rparr>)))"

text \<open>
  \<open>HandlePut\<close>; \<open>now\<close> is the clock reading of \<open>NewDocument\<close> and \<open>now'\<close> the one of the
  overwrite check, \<open>coins\<close> the random source of the skip list.
\<close>

definition Collection_HandlePut ::
  "nat \<Rightarrow> bool list \<Rightarrow> 'n Codec \<Rightarrow> int \<Rightarrow> int \<Rightarrow> 'c Collection \<Rightarrow> 'n RequestPack
     \<Rightarrow> fault + ('c Collection \<times> PutResponse option \<times> status)" where
  "Collection_HandlePut fuel coins codec now now' c req =
     (case childNameOf req of
        Inl f \<Rightarrow> Inl f
      | Inr childName \<Rightarrow>
          let path = ''/v1/'' @ joinWith ''/'' (GetPath req) in
          (case NewDocument codec now path (GetContent req) (GetUsername req) (GetValidator req) of
             Inl e \<Rightarrow> Inr (c, None, \<lparr>status_class = ''Bad Request'', status_err = Some e\<rparr>)
           | Inr doc \<Rightarrow>
               let putCheck = (if GetNoOverwrite req then DocCheckNoOverwrite doc
                               else DocCheckOverwrite now' doc)
               in (case Upsert fuel coins (Documents c) childName putCheck of
                     Inl f \<Rightarrow> Inl f
                   | Inr (docs, updated, e) \<Rightarrow>
                       (case e of
                          Some msg \<Rightarrow>
                            if updated
                            then Inr (c\<lparr>Documents := docs\<rparr>, None,
                                      \<lparr>status_class = ''Document not overwritten'', status_err = Some msg\<rparr>)
                            else Inr (c\<lparr>Documents := docs\<rparr>, None,
                                      \<lparr>status_class = ''Bad Request'', status_err = Some msg\<rparr>)
                        | None \<Rightarrow>
                            if updated
                            then Inr (c\<lparr>Documents := docs\<rparr>, Some \<lparr>uri = path\<rparr>,
                                      \<lparr>status_class = ''Overwritten'', status_err = None\<rparr>)
                            else Inr (c\<lparr>Documents := docs\<rparr>, Some \<lparr>uri = path\<rparr>,
                                      \<lparr>status_class = ''Created'', status_err = None\<rparr>)))))"

text \<open>\<open>nano\<close> is the reading of \<open>time.Now().UnixNano()\<close>.\<close>

definition generateRandomDocName :: "int \<Rightarrow> string" where
  "generateRandomDocName nano = ''doc_'' @ decimalInt nano"

text \<open>
  \<open>HandlePost\<close>. \<open>nano\<close> and \<open>now\<close> are the clock readings of the first attempt (name and
  document), \<open>nano'\<close> and \<open>now'\<close> those of the body of the loop \<open>for err != nil\<close>. The body
  returns "Bad Request" when its own \<open>Upsert\<close> fails, and leaves the loop otherwise, so it
  runs at most once.
\<close>

definition Collection_HandlePost ::
  "nat \<Rightarrow> bool list \<Rightarrow> 'n Codec \<Rightarrow> int \<Rightarrow> int \<Rightarrow> int \<Rightarrow> int \<Rightarrow> 'c Collection \<Rightarrow> 'n RequestPack
     \<Rightarrow> fault + ('c Collection \<times> PutResponse option \<times> status)" where
  "Collection_HandlePost fuel coins codec nano now nano' now' c req =
     (let newDocName = generateRandomDocName nano;
          path = ''/v1/'' @ Name c @ ''/'' @ newDocName
      in case NewDocument codec now path (GetContent req) (GetUsername req) (GetValidator req) of
           Inl e \<Rightarrow> Inr (c, None, \<lparr>status_class = ''Bad Request'', status_err = Some e\<rparr>)
         | Inr doc \<Rightarrow>
             (case Upsert fuel coins (Documents c) newDocName (DocCheckNoOverwrite doc) of
                Inl f \<Rightarrow> Inl f
              | Inr (docs, updated, e) \<Rightarrow>
                  (case e of
                     None \<Rightarrow>
                       Inr (c\<lparr>Documents := docs\<rparr>, Some \<lparr>uri = path\<rparr>,
                            \<lparr>status_class = ''Created'', status_err = None\<rparr>)
                   | Some msg \<Rightarrow>
                       let newDocName' = generateRandomDocName nano';
                           path' = ''/v1/'' @ Name c @ ''/'' @ newDocName'
                       in (case NewDocument codec now' path' (GetContent req) (GetUsername req)
                                  (GetValidator req) of
                             Inl e' \<Rightarrow>
                               Inr (c\<lparr>Documents := docs\<rparr>, None,
                                    \<lparr>status_class = ''Bad Request'', status_err = Some e'\<rparr>)
                           | Inr doc' \<Rightarrow>
                               (case Upsert fuel coins docs newDocName' (DocCheckNoOverwrite doc') of
                                  Inl f \<Rightarrow> Inl f
                                | Inr (docs', updated', e') \<Rightarrow>
                                    (case e' of
                                       Some msg' \<Rightarrow>
                                         Inr (c\<lparr>Documents := docs'\<rparr>, None,
                                              \<lparr>status_class = ''Bad Request'', status_err = Some msg'\<rparr>)
                                     | None \<Rightarrow>
                                         Inr (c\<lparr>Documents := docs'\<rparr>, Some \<lparr>uri = path'\<rparr>,
                                              \<lparr>status_class = ''Created'', status_err = None\<rparr>)))))))"

text \<open>\<open>now\<close> is the clock reading of \<open>Metadata.Update\<close> inside the patch check.\<close>

definition Collection_HandlePatch ::
  "nat \<Rightarrow> bool list \<Rightarrow> 'n Codec \<Rightarrow> int \<Rightarrow> 'c Collection \<Rightarrow> 'n RequestPack
     \<Rightarrow> fault + ('c Collection \<times> PatchResponse \<times> status)" where
  "Collection_HandlePatch fuel coins codec now c req =
     (case childNameOf req of
        Inl f \<Rightarrow> Inl f
      | Inr childName \<Rightarrow>
          (case Upsert fuel coins (Documents c) childName
                  (DocPatchCheck codec now (GetContent req) (GetValidator req) (GetUsername req)) of
             Inl f \<Rightarrow> Inl f
           | Inr (docs, updated, e) \<Rightarrow>
               let response = \<lparr>Uri = ''/v1/'' @ joinWith ''/'' (GetPath req),
                               PatchFailed = (e \<noteq> None),
                               Message = (case e of Some msg \<Rightarrow> msg | None \<Rightarrow> ''patches applied'')\<rparr>
               in Inr (c\<lparr>Documents := docs\<rparr>, response,
                       \<lparr>status_class = ''Patched'', status_err = None\<rparr>)))"

subsection \<open>Deleting a collection of a document, and a database of the root\<close>

definition Document_HandleDelete ::
  "nat \<Rightarrow> 'c Document \<Rightarrow> 'n RequestPack \<Rightarrow> fault + ('c Document \<times> status)" where
  "Document_HandleDelete fuel doc req =
     (case childNameOf req of
        Inl f \<Rightarrow> Inl f
      | Inr childName \<Rightarrow>
          (case Delete fuel (Collections doc) childName of
             Inl f \<Rightarrow> Inl f
           | Inr (cols, removed, e) \<Rightarrow>
               (case e of
                  Some msg \<Rightarrow>
                    Inr (doc\<lparr>Collections := cols\<rparr>,
                         \<lparr>status_class = ''Does Not Exist'',
                          status_err = Some (''Collection does not exist '' @ childName @ '': not found'')\<rparr>)
                | None \<Rightarrow>
                    Inr (doc\<lparr>Collections := cols\<rparr>, \<lparr>status_class = ''Deleted'', status_err = None\<rparr>))))"

definition RootNode_HandleDelete ::
  "nat \<Rightarrow> 'd RootNode \<Rightarrow> 'n RequestPack \<Rightarrow> fault + ('d RootNode \<times> status)" where
  "RootNode_HandleDelete fuel root req =
     (case childNameOf req of
        Inl f \<Rightarrow> Inl f
      | Inr childName \<Rightarrow>
          (case Delete fuel (Databases root) childName of
             Inl f \<Rightarrow> Inl f
           | Inr (dbs, removed, e) \<Rightarrow>
               if \<not> removed
               then Inr (root\<lparr>Databases := dbs\<rparr>,
                         \<lparr>status_class = ''Does Not Exist'',
                          status_err = Some (''Database does not exist '' @ childName @ '': Not Found'')\<rparr>)
               else Inr (root\<lparr>Databases := dbs\<rparr>, \<lparr>status_class = ''Deleted'', status_err = None\<rparr>)))"

section \<open>A collection with one document\<close>

text \<open>
  The examples fix the behaviour of \<open>encoding/json\<close> on the few bodies they use, take
  numbers to be integers, accept every value as valid, and leave the type of the
  collections inside a document trivial.
\<close>

definition demoCodec :: "int Codec" where
  \<open>demoCodec =
     \<lparr>decodeJSON = (\<lambda>body. if body = ''{}'' then Some (JMap fmempty)
                           else if body = ''{"x":1}'' then Some (JMap (fmupd ''x'' (JFloat64 1) fmempty))
                           else None),
      decodePatches = (\<lambda>body. if body = ''[{"op":"ObjectAdd","path":"","value":2}]''
                              then Some [\<lparr>Op = ''ObjectAdd'', Path = '''', Value = JFloat64 2\<rparr>]
                              else None),
      encodeJSON = (\<lambda>j. if j = JMap fmempty then Some ''{}''
                         else if j = JMap (fmupd ''x'' (JFloat64 1) fmempty) then Some ''{"x":1}''
                         else None)\<rparr>\<close>

definition acceptAll :: "int JSONValue \<Rightarrow> string option" where
  "acceptAll j = None"

definition emptyCollection :: "unit Collection" where
  "emptyCollection =
     \<lparr>ColPath = ''/v1/db/doc/col'', Name = ''col'',
      Documents = NewSkipList 10 minSentinel maxSentinel\<rparr>"

definition putDoc1 :: "int RequestPack" where
  \<open>putDoc1 =
     \<lparr>GetType = ''PUT'', GetPath = [''db'', ''doc'', ''col'', ''doc1''], GetContent = ''{"x":1}'',
      GetValidator = acceptAll, GetUsername = ''alice'', GetStartKey = '''', GetEndKey = '''',
      GetNoOverwrite = False\<rparr>\<close>

definition oneDocument :: "unit Collection" where
  "oneDocument =
     (case Collection_HandlePut fuel5 [] demoCodec 1000 1000 emptyCollection putDoc1 of
        Inl f \<Rightarrow> emptyCollection
      | Inr (c, response, st) \<Rightarrow> c)"

text \<open>The document that the PUT above creates, and the same PUT in no-overwrite mode.\<close>

definition doc1 :: "unit Document" where
  \<open>doc1 =
     \<lparr>DocPath = ''/v1/db/doc/col/doc1'', Contents = ''{"x":1}'',
      Collections = NewSkipList 10 minSentinel maxSentinel,
      Meta = \<lparr>CreatedBy = ''alice'', CreatedAt = 1000,
              LastModifiedBy = ''alice'', LastModifiedAt = 1000\<rparr>\<rparr>\<close>

definition putDoc1NoOverwrite :: "int RequestPack" where
  "putDoc1NoOverwrite = putDoc1\<lparr>GetNoOverwrite := True\<rparr>"

text \<open>A second PUT on the same document by another user, and a PATCH with an empty pointer.\<close>

definition putDoc1Again :: "int RequestPack" where
  "putDoc1Again = putDoc1\<lparr>GetContent := ''{}'', GetUsername := ''bob''\<rparr>"

definition patchDoc1 :: "int RequestPack" where
  \<open>patchDoc1 =
     \<lparr>GetType = ''PATCH'', GetPath = [''db'', ''doc'', ''col'', ''doc1''],
      GetContent = ''[{"op":"ObjectAdd","path":"","value":2}]'',
      GetValidator = acceptAll, GetUsername = ''bob'', GetStartKey = '''', GetEndKey = '''',
      GetNoOverwrite = False\<rparr>\<close>

text \<open>
  A DELETE of a collection that the document does not have, and the same name deleted from
  the collection of documents.
\<close>

definition deleteNoCol :: "int RequestPack" where
  "deleteNoCol =
     \<lparr>GetType = ''DELETE'', GetPath = [''db'', ''doc'', ''col'', ''doc1'', ''nocol''],
      GetContent = '''', GetValidator = acceptAll, GetUsername = ''bob'', GetStartKey = '''',
      GetEndKey = '''', GetNoOverwrite = False\<rparr>"

definition deleteNoDoc :: "int RequestPack" where
  "deleteNoDoc = deleteNoCol\<lparr>GetPath := [''db'', ''doc'', ''col'', ''nocol'']\<rparr>"

text \<open>
  A collection that holds documents under the two names that \<open>generateRandomDocName\<close>
  gives for two clock readings, and a POST.
\<close>

definition putNamed :: "string \<Rightarrow> int RequestPack" where
  "putNamed name = putDoc1\<lparr>GetPath := [''db'', ''doc'', ''col'', name]\<rparr>"

definition collectionAfterPut :: "unit Collection \<Rightarrow> int RequestPack \<Rightarrow> unit Collection" where
  "collectionAfterPut c req =
     (case Collection_HandlePut fuel5 [] demoCodec 1000 1000 c req of
        Inl f \<Rightarrow> c
      | Inr (c', response, st) \<Rightarrow> c')"

definition twoNamed :: "unit Collection" where
  "twoNamed =
     collectionAfterPut
       (collectionAfterPut emptyCollection (putNamed (generateRandomDocName 1730000000000000001)))
       (putNamed (generateRandomDocName 1730000000000000002))"

definition postDoc :: "int RequestPack" where
  \<open>postDoc =
     \<lparr>GetType = ''POST'', GetPath = [''db'', ''doc'', ''col''], GetContent = ''{"x":1}'',
      GetValidator = acceptAll, GetUsername = ''carol'', GetStartKey = '''', GetEndKey = '''',
      GetNoOverwrite = False\<rparr>\<close>

section \<open>Request validation: the code against the matrix\<close>

lemma GetStorageType_kind:
  "GetStorageType (int depth) =
     (case spec_kind depth of
        KDatabase \<Rightarrow> ''Database'' | KDocument \<Rightarrow> ''Document'' | KCollection \<Rightarrow> ''Collection'')"
proof -
  have "(int depth mod 2 = 0) = even depth" by presburger
  moreover have "(int depth = 1) = (depth = 1)" by linarith
  ultimately show ?thesis
    by (simp add: GetStorageType_def spec_kind_def)
qed

lemma RequestValid_Database:
  "fst (RequestValid verb ''Database'' slash interval noover) =
     (verb \<in> {''GET'', ''PUT'', ''POST'', ''DELETE''} \<and>
      (if verb = ''PUT'' \<or> verb = ''DELETE'' then \<not> slash else slash) \<and> \<not> noover)"
  by (simp add: RequestValid_def GetSupportedRequests_def)

lemma RequestValid_Document:
  "fst (RequestValid verb ''Document'' slash interval noover) =
     (verb \<in> {''GET'', ''PUT'', ''DELETE'', ''PATCH''} \<and> \<not> slash \<and> \<not> interval)"
  by (simp add: RequestValid_def GetSupportedRequests_def)

lemma RequestValid_Collection:
  "fst (RequestValid verb ''Collection'' slash interval noover) =
     (verb \<in> {''GET'', ''PUT'', ''POST'', ''DELETE''} \<and> slash \<and> \<not> noover)"
  by (simp add: RequestValid_def GetSupportedRequests_def)

lemma RequestValid_spec:
  "fst (RequestValid verb (GetStorageType (int depth)) slash interval noover)
     = spec_accepts verb depth slash interval noover"
  unfolding GetStorageType_kind
  by (cases "spec_kind depth")
     (simp_all add: RequestValid_Database RequestValid_Document RequestValid_Collection
        spec_accepts_def spec_verbs_def)

lemma length_splitOn: "length (splitOn c s) = Suc (count_list s c)"
  by (induction s) (auto split: list.splits)

lemma getInterval_comma:
  "CHR '','' \<in> set (trimSet interval ''[]'') \<Longrightarrow> 2 \<le> length (getInterval interval)"
proof -
  assume "CHR '','' \<in> set (trimSet interval ''[]'')"
  then have "count_list (trimSet interval ''[]'') CHR '','' \<noteq> 0"
    by (simp add: count_list_0_iff)
  then show ?thesis by (simp add: getInterval_def length_splitOn)
qed

text \<open>
  The mux routes to \<open>HandleStorage\<close> the paths that start with \<open>/v1/\<close>; they split into
  three fields at least.
\<close>

lemma routed_path_fields: "3 \<le> length (splitOn CHR ''/'' (''/v1/'' @ rest))"
  by (simp add: length_splitOn)

text \<open>
  For a verb other than OPTIONS, a routed path, and an interval parameter that is absent
  or splits into two fields at least, the validation phase of \<open>HandleStorage\<close> returns: it
  answers 400 when the matrix rejects the request and goes on otherwise.
\<close>

lemma HandleStorage_validate_answer:
  assumes "verb \<noteq> ''OPTIONS''" and "3 \<le> length (splitOn CHR ''/'' path)"
    and "ip = [] \<or> 2 \<le> length (getInterval ip)"
  shows "HandleStorage_validate verb path ip mode =
           Inr (if spec_accepts verb (length (pathSegmentsOf path)) (hasTrailingSlashOf path)
                     (ip \<noteq> []) (mode = ''nooverwrite'')
                then None else Some 400)"
proof -
  have "rawSegmentsOf path \<noteq> []" using assms(2) by (auto simp: rawSegmentsOf_def)
  then show ?thesis
    using assms RequestValid_spec [of verb "length (pathSegmentsOf path)" "hasTrailingSlashOf path"
        "ip \<noteq> []" "mode = ''nooverwrite''"]
    by (auto simp: HandleStorage_validate_def Let_def split: prod.splits)
qed

text \<open>
  Claim C7 fails on the code for an interval parameter without a comma. The request
  \<open>GET /v1/db/doc?interval=abc\<close> carries an interval on a Document path: the matrix rejects
  it, and so does \<open>RequestValid\<close> on the values the handler would pass. But \<open>HandleStorage\<close>
  reads \<open>interval_split[1]\<close> of the one-field split before it calls \<open>RequestValid\<close>: it
  panics and writes no 400. The same request with the interval \<open>[a,b]\<close> is answered 400.
\<close>

theorem HandleStorage_interval_without_comma_panics:
  "getInterval ''abc'' = [''abc'']
   \<and> pathSegmentsOf ''/v1/db/doc'' = [''db'', ''doc'']
   \<and> hasTrailingSlashOf ''/v1/db/doc'' = False
   \<and> spec_accepts ''GET'' 2 False True False = False
   \<and> RequestValid ''GET'' (GetStorageType 2) False True False = (False, Some ''bad request path'')
   \<and> HandleStorage_validate ''GET'' ''/v1/db/doc'' ''abc'' '''' = Inl IndexOutOfRange
   \<and> HandleStorage_validate ''GET'' ''/v1/db/doc'' ''[a,b]'' '''' = Inr (Some 400)"
  by (simp add: HandleStorage_validate_def rawSegmentsOf_def pathSegmentsOf_def
      hasTrailingSlashOf_def GetStorageType_def RequestValid_def GetSupportedRequests_def
      spec_accepts_def spec_kind_def spec_verbs_def getInterval_def trimSet_def)

theorem HandleStorage_interval_without_comma_panics_witness:
  "\<not> fst (RequestValid ''GET'' (GetStorageType 2) False True False)
   \<and> \<not> spec_accepts ''GET'' 2 False True False
   \<and> HandleStorage_validate ''GET'' ''/v1/db/doc'' ''abc'' '''' = Inl IndexOutOfRange"
  using HandleStorage_interval_without_comma_panics by simp

section \<open>The array patches are set-like\<close>

lemma arrayHasEqual_iff: "arrayHasEqual array v \<longleftrightarrow> v \<in> set array"
  by (induction array) (auto simp: Equal_def)

lemma arrayRemoveLoop_filter:
  "arrayRemoveLoop v array acc = acc @ filter (\<lambda>element. element \<noteq> v) array"
  by (induction array arbitrary: acc) (simp_all add: Equal_def)

lemma arrayAddModify_eq:
  "arrayAddModify v array = Inr (if v \<in> set array then array else array @ [v])"
  by (simp add: arrayAddModify_def arrayHasEqual_iff)

lemma arrayRemoveModify_eq:
  "arrayRemoveModify v array = Inr (filter (\<lambda>element. element \<noteq> v) array)"
  by (simp add: arrayRemoveModify_def arrayRemoveLoop_filter)

lemma arrayAdd_visitor_idem:
  "arrayModifyVisitor (arrayAddModify v) x = Inr y \<Longrightarrow> arrayModifyVisitor (arrayAddModify v) y = Inr y"
  by (cases x) (auto simp: arrayModifyVisitor_def arrayAddModify_eq split: if_splits)

lemma arrayRemove_visitor_idem:
  "arrayModifyVisitor (arrayRemoveModify v) x = Inr y \<Longrightarrow>
   arrayModifyVisitor (arrayRemoveModify v) y = Inr y"
  by (cases x) (auto simp: arrayModifyVisitor_def arrayRemoveModify_eq)

text \<open>
  A modification that maps each of its results to itself keeps this property when it is
  applied below a path: the second traversal finds the child that the first one stored.
\<close>

lemma modifyJSON_idem:
  assumes f: "\<And>x y. f x = Inr y \<Longrightarrow> f y = Inr y"
  shows "modifyJSON doc p f = Inr doc' \<Longrightarrow> modifyJSON doc' p f = Inr doc'"
proof (induction p arbitrary: doc doc')
  case Nil
  then show ?case using f by simp
next
  case (Cons k rest)
  from Cons.prems obtain object child child' where
    doc: "doc = JMap object" and look: "fmlookup object k = Some child"
    and sub: "modifyJSON child rest f = Inr child'"
    and doc': "doc' = JMap (fmupd k child' object)"
    by (auto split: JSONValue.splits option.splits sum.splits)
  from Cons.IH [OF sub] have "modifyJSON child' rest f = Inr child'" .
  then show ?case by (simp add: doc')
qed

lemma fmupd_same: "fmlookup object k = Some child \<Longrightarrow> fmupd k child object = object"
  by (rule fmap_ext) auto

lemma valueAt_below_leaf:
  "valueAt doc p = Some x \<Longrightarrow> (\<And>r. r \<noteq> [] \<Longrightarrow> valueAt x r = None) \<Longrightarrow> r \<noteq> []
     \<Longrightarrow> valueAt doc (p @ r) = None"
proof (induction p arbitrary: doc)
  case Nil
  then show ?case by simp
next
  case (Cons k rest)
  from Cons.prems(1) obtain object child where
    "doc = JMap object" "fmlookup object k = Some child" "valueAt child rest = Some x"
    by (cases doc) (auto split: option.splits)
  with Cons.IH [of child] Cons.prems(2,3) show ?case by simp
qed

lemma modifyJSON_at:
  assumes "valueAt doc p = Some x" and "f x = Inr y"
  shows "\<exists>d. modifyJSON doc p f = Inr d \<and> valueAt d p = Some y
             \<and> (\<forall>q. \<not> prefix q p \<and> \<not> prefix p q \<longrightarrow> valueAt d q = valueAt doc q)
             \<and> (y = x \<longrightarrow> d = doc)"
  using assms
proof (induction p arbitrary: doc)
  case Nil
  then show ?case by simp
next
  case (Cons k rest)
  from Cons.prems(1) obtain object child where
    doc: "doc = JMap object" and look: "fmlookup object k = Some child"
    and sub: "valueAt child rest = Some x"
    by (cases doc) (auto split: option.splits)
  from Cons.IH [OF sub Cons.prems(2)] obtain d' where
    m: "modifyJSON child rest f = Inr d'" and at: "valueAt d' rest = Some y"
    and frame: "\<forall>q. \<not> prefix q rest \<and> \<not> prefix rest q \<longrightarrow> valueAt d' q = valueAt child q"
    and same: "y = x \<longrightarrow> d' = child"
    by blast
  let ?d = "JMap (fmupd k d' object)"
  have 1: "modifyJSON doc (k # rest) f = Inr ?d" by (simp add: doc look m)
  have 2: "valueAt ?d (k # rest) = Some y" by (simp add: at)
  have 3: "valueAt ?d q = valueAt doc q" if "\<not> prefix q (k # rest)" "\<not> prefix (k # rest) q" for q
  proof (cases q)
    case Nil
    with that show ?thesis by simp
  next
    case (Cons k' qs)
    show ?thesis
    proof (cases "k' = k")
      case True
      with that Cons have "\<not> prefix qs rest \<and> \<not> prefix rest qs" by simp
      with frame have "valueAt d' qs = valueAt child qs" by blast
      then show ?thesis by (simp add: Cons True doc look)
    next
      case False
      then show ?thesis by (simp add: Cons doc)
    qed
  qed
  have 4: "?d = doc" if "y = x" using that same look by (simp add: doc fmupd_same)
  from 1 2 3 4 show ?case by blast
qed

lemma modifyJSON_Inr_at:
  "modifyJSON doc p f = Inr d \<Longrightarrow> \<exists>x y. valueAt doc p = Some x \<and> f x = Inr y"
proof (induction p arbitrary: doc d)
  case Nil
  then show ?case by simp
next
  case (Cons k rest)
  then show ?case
    by (cases doc) (auto split: option.splits sum.splits)
qed

lemma arrayModifyVisitor_Inr:
  "arrayModifyVisitor g x = Inr y \<Longrightarrow> \<exists>a. x = JSlice a"
  by (cases x) (auto simp: arrayModifyVisitor_def)

lemma valueAt_array_below: "r \<noteq> [] \<Longrightarrow> valueAt (JSlice a) r = None"
  by (cases r) simp_all

lemma array_modify_at:
  assumes p: "valueAt doc p = Some (JSlice a)" and g: "g a = Inr a'"
  shows "\<exists>d. modifyJSON doc p (arrayModifyVisitor g) = Inr d \<and> valueAt d p = Some (JSlice a')
             \<and> unchangedOutside p doc d \<and> (a' = a \<longrightarrow> d = doc)"
proof -
  have f: "arrayModifyVisitor g (JSlice a) = Inr (JSlice a')"
    by (simp add: arrayModifyVisitor_def g)
  from modifyJSON_at [of doc p "JSlice a" "arrayModifyVisitor g" "JSlice a'"] p f obtain d where
    m: "modifyJSON doc p (arrayModifyVisitor g) = Inr d" and at: "valueAt d p = Some (JSlice a')"
    and frame: "\<forall>q. \<not> prefix q p \<and> \<not> prefix p q \<longrightarrow> valueAt d q = valueAt doc q"
    and same: "JSlice a' = JSlice a \<longrightarrow> d = doc"
    by blast
  have "valueAt d q = valueAt doc q" if "\<not> prefix q p" for q
  proof (cases "prefix p q")
    case True
    then obtain r where q: "q = p @ r" by (auto simp: prefix_def)
    with that have r: "r \<noteq> []" by auto
    have "valueAt d (p @ r) = None"
      using valueAt_below_leaf [OF at _ r] valueAt_array_below by blast
    moreover have "valueAt doc (p @ r) = None"
      using valueAt_below_leaf [OF p _ r] valueAt_array_below by blast
    ultimately show ?thesis by (simp add: q)
  next
    case False
    with that frame show ?thesis by blast
  qed
  then have "unchangedOutside p doc d" by (simp add: unchangedOutside_def)
  with m at same show ?thesis by blast
qed

lemma applyArrayAdd_at:
  assumes "p \<noteq> []" and "valueAt doc p = Some (JSlice a)"
  shows "\<exists>d. applyArrayAdd doc p v = Inr d
             \<and> valueAt d p = Some (JSlice (if v \<in> set a then a else a @ [v]))
             \<and> unchangedOutside p doc d \<and> (v \<in> set a \<longrightarrow> d = doc)"
  using array_modify_at [of doc p a "arrayAddModify v" "if v \<in> set a then a else a @ [v]"] assms
  by (auto simp: applyArrayAdd_def arrayAddModify_eq)

lemma applyArrayRemove_at:
  assumes "p \<noteq> []" and "valueAt doc p = Some (JSlice a)"
  shows "\<exists>d. applyArrayRemove doc p v = Inr d
             \<and> valueAt d p = Some (JSlice (filter (\<lambda>element. element \<noteq> v) a))
             \<and> unchangedOutside p doc d \<and> (v \<notin> set a \<longrightarrow> d = doc)"
proof -
  have "filter (\<lambda>element. element \<noteq> v) a = a" if "v \<notin> set a"
    using that by (induction a) auto
  then show ?thesis
    using array_modify_at [of doc p a "arrayRemoveModify v" "filter (\<lambda>element. element \<noteq> v) a"]
      assms
    by (auto simp: applyArrayRemove_def arrayRemoveModify_eq)
qed

lemma applyArrayAdd_returns:
  "(\<exists>d. applyArrayAdd doc p v = Inr d) \<longleftrightarrow> p \<noteq> [] \<and> (\<exists>a. valueAt doc p = Some (JSlice a))"
proof
  assume "\<exists>d. applyArrayAdd doc p v = Inr d"
  then obtain d where d: "applyArrayAdd doc p v = Inr d" ..
  then have p: "p \<noteq> []" and m: "modifyJSON doc p (arrayModifyVisitor (arrayAddModify v)) = Inr d"
    by (auto simp: applyArrayAdd_def split: if_splits)
  from modifyJSON_Inr_at [OF m] arrayModifyVisitor_Inr p
  show "p \<noteq> [] \<and> (\<exists>a. valueAt doc p = Some (JSlice a))" by blast
next
  assume "p \<noteq> [] \<and> (\<exists>a. valueAt doc p = Some (JSlice a))"
  then show "\<exists>d. applyArrayAdd doc p v = Inr d" using applyArrayAdd_at by blast
qed

lemma applyArrayRemove_returns:
  "(\<exists>d. applyArrayRemove doc p v = Inr d) \<longleftrightarrow> p \<noteq> [] \<and> (\<exists>a. valueAt doc p = Some (JSlice a))"
proof
  assume "\<exists>d. applyArrayRemove doc p v = Inr d"
  then obtain d where d: "applyArrayRemove doc p v = Inr d" ..
  then have p: "p \<noteq> []" and m: "modifyJSON doc p (arrayModifyVisitor (arrayRemoveModify v)) = Inr d"
    by (auto simp: applyArrayRemove_def split: if_splits)
  from modifyJSON_Inr_at [OF m] arrayModifyVisitor_Inr p
  show "p \<noteq> [] \<and> (\<exists>a. valueAt doc p = Some (JSlice a))" by blast
next
  assume "p \<noteq> [] \<and> (\<exists>a. valueAt doc p = Some (JSlice a))"
  then show "\<exists>d. applyArrayRemove doc p v = Inr d" using applyArrayRemove_at by blast
qed

lemma applyArrayAdd_idem:
  "applyArrayAdd doc p v = Inr doc' \<Longrightarrow> applyArrayAdd doc' p v = Inr doc'"
  using modifyJSON_idem [of "arrayModifyVisitor (arrayAddModify v)" doc p doc']
    arrayAdd_visitor_idem [of v]
  by (auto simp: applyArrayAdd_def split: if_splits)

lemma applyArrayRemove_idem:
  "applyArrayRemove doc p v = Inr doc' \<Longrightarrow> applyArrayRemove doc' p v = Inr doc'"
  using modifyJSON_idem [of "arrayModifyVisitor (arrayRemoveModify v)" doc p doc']
    arrayRemove_visitor_idem [of v]
  by (auto simp: applyArrayRemove_def split: if_splits)

text \<open>
  Claim C5. Where the path of a patch leads to an array of the document, \<open>applyArrayAdd\<close>
  returns the document in which this array has the value appended exactly when no element
  equal to it was present (otherwise the document itself), and \<open>applyArrayRemove\<close> returns
  the document in which this array keeps exactly the elements different from the value, in
  their order; nothing else in the document changes. Both return an error exactly when the
  path is empty or does not lead to an array. Applying either patch with the same value to
  its own result changes nothing. The loops of the two patches, taken alone, append iff
  absent and filter out every equal element.
\<close>

theorem array_patches_set_like:
  "(arrayAddModify v array = Inr (array @ [v]) \<longleftrightarrow> v \<notin> set array)
   \<and> (v \<in> set array \<longrightarrow> arrayAddModify v array = Inr array)
   \<and> arrayRemoveModify v array = Inr (filter (\<lambda>element. element \<noteq> v) array)
   \<and> (\<forall>array'. arrayRemoveModify v array = Inr array' \<longrightarrow> v \<notin> set array')
   \<and> (p \<noteq> [] \<and> valueAt doc p = Some (JSlice a) \<longrightarrow>
        (\<exists>d. applyArrayAdd doc p v = Inr d
              \<and> valueAt d p = Some (JSlice (if v \<in> set a then a else a @ [v]))
              \<and> unchangedOutside p doc d \<and> (v \<in> set a \<longrightarrow> d = doc))
        \<and> (\<exists>d. applyArrayRemove doc p v = Inr d
              \<and> valueAt d p = Some (JSlice (filter (\<lambda>element. element \<noteq> v) a))
              \<and> unchangedOutside p doc d \<and> (v \<notin> set a \<longrightarrow> d = doc)))
   \<and> ((\<exists>d. applyArrayAdd doc p v = Inr d) \<longleftrightarrow> p \<noteq> [] \<and> (\<exists>a. valueAt doc p = Some (JSlice a)))
   \<and> ((\<exists>d. applyArrayRemove doc p v = Inr d) \<longleftrightarrow> p \<noteq> [] \<and> (\<exists>a. valueAt doc p = Some (JSlice a)))
   \<and> (applyArrayAdd doc p v = Inr doc' \<longrightarrow> applyArrayAdd doc' p v = Inr doc')
   \<and> (applyArrayRemove doc p v = Inr doc'' \<longrightarrow> applyArrayRemove doc'' p v = Inr doc'')"
proof -
  have 1: "(arrayAddModify v array = Inr (array @ [v]) \<longleftrightarrow> v \<notin> set array)
      \<and> (v \<in> set array \<longrightarrow> arrayAddModify v array = Inr array)
      \<and> arrayRemoveModify v array = Inr (filter (\<lambda>element. element \<noteq> v) array)
      \<and> (\<forall>array'. arrayRemoveModify v array = Inr array' \<longrightarrow> v \<notin> set array')"
    by (auto simp: arrayAddModify_eq arrayRemoveModify_eq)
  show ?thesis
    using 1 applyArrayAdd_at [of p doc a v] applyArrayRemove_at [of p doc a v]
      applyArrayAdd_returns [of doc p v] applyArrayRemove_returns [of doc p v]
      applyArrayAdd_idem [of doc p v doc'] applyArrayRemove_idem [of doc p v doc'']
    by blast
qed

theorem array_patches_set_like_witness:
  "[''a''] \<noteq> []
   \<and> valueAt (JMap (fmupd ''a'' (JSlice [JFloat64 (1::nat), JFloat64 2]) fmempty)) [''a'']
       = Some (JSlice [JFloat64 1, JFloat64 2])
   \<and> JFloat64 (3::nat) \<notin> set [JFloat64 1, JFloat64 2]
   \<and> arrayAddModify (JFloat64 (3::nat)) [JFloat64 1, JFloat64 2]
       = Inr [JFloat64 1, JFloat64 2, JFloat64 3]
   \<and> applyArrayAdd (JMap (fmupd ''a'' (JSlice [JFloat64 (1::nat), JFloat64 2]) fmempty))
         [''a''] (JFloat64 3)
       = Inr (JMap (fmupd ''a'' (JSlice [JFloat64 1, JFloat64 2, JFloat64 3]) fmempty))
   \<and> applyArrayAdd (JMap (fmupd ''a'' (JSlice [JFloat64 (1::nat), JFloat64 2, JFloat64 3]) fmempty))
         [''a''] (JFloat64 3)
       = Inr (JMap (fmupd ''a'' (JSlice [JFloat64 1, JFloat64 2, JFloat64 3]) fmempty))
   \<and> applyArrayRemove (JMap (fmupd ''a'' (JSlice [JFloat64 (1::nat), JFloat64 2]) fmempty))
         [''a''] (JFloat64 3)
       = Inr (JMap (fmupd ''a'' (JSlice [JFloat64 1, JFloat64 2]) fmempty))
   \<and> applyArrayRemove
         (JMap (fmupd ''a'' (JSlice [JFloat64 (3::nat), JFloat64 1, JFloat64 3, JFloat64 2]) fmempty))
         [''a''] (JFloat64 3)
       = Inr (JMap (fmupd ''a'' (JSlice [JFloat64 1, JFloat64 2]) fmempty))"
  using array_patches_set_like [of "JFloat64 (3::nat)" "[JFloat64 1, JFloat64 2]" "[''a'']"
      "JMap (fmupd ''a'' (JSlice [JFloat64 (1::nat), JFloat64 2]) fmempty)"
      "[JFloat64 1, JFloat64 2]"]
  by (simp add: applyArrayAdd_def applyArrayRemove_def arrayModifyVisitor_def
      arrayAddModify_def arrayRemoveModify_def Equal_def)

section \<open>Dispatch: when it reports an error, and what it does to the subscriber lists\<close>

lemma someSendFails_Cons_room:
  assumes "length (buf (cs c0)) < cap (cs c0)"
  shows "someSendFails (cs(c0 := (cs c0)\<lparr>buf := buf (cs c0) @ [msg]\<rparr>)) rest
           \<longleftrightarrow> someSendFails cs (c0 # rest)"
proof -
  have "(\<exists>c\<in>set rest. cap ((cs(c0 := (cs c0)\<lparr>buf := buf (cs c0) @ [msg]\<rparr>)) c)
            < length (buf ((cs(c0 := (cs c0)\<lparr>buf := buf (cs c0) @ [msg]\<rparr>)) c)) + count_list rest c)
        \<longleftrightarrow> (\<exists>c\<in>set rest. cap (cs c) < length (buf (cs c)) + count_list (c0 # rest) c)"
    by (rule bex_cong) auto
  moreover have "c0 \<notin> set rest \<Longrightarrow> \<not> cap (cs c0) < length (buf (cs c0)) + count_list (c0 # rest) c0"
    using assms by simp
  ultimately show ?thesis
    unfolding someSendFails_def by (cases "c0 \<in> set rest") auto
qed

lemma someSendFails_Cons_full:
  assumes "\<not> length (buf (cs c0)) < cap (cs c0)"
  shows "someSendFails cs (c0 # rest)"
  unfolding someSendFails_def using assms by (intro bexI [of _ c0]) auto

lemma sendAll_failed:
  "sendAll cs subs msg f = Inr (cs', f') \<Longrightarrow>
     f \<le> f' \<and> (f < f' \<longleftrightarrow> someSendFails cs subs)"
proof (induction subs arbitrary: cs f)
  case Nil
  then show ?case by (simp add: someSendFails_def)
next
  case (Cons c0 rest)
  show ?case
  proof (cases "length (buf (cs c0)) < cap (cs c0)")
    case True
    let ?cs1 = "cs(c0 := (cs c0)\<lparr>buf := buf (cs c0) @ [msg]\<rparr>)"
    from Cons.prems True have rec: "sendAll ?cs1 rest msg f = Inr (cs', f')"
      by (simp add: trySend_def split: if_splits)
    from Cons.IH [OF rec] someSendFails_Cons_room [of cs c0 msg rest] True
    show ?thesis by (simp add: fun_upd_def)
  next
    case False
    from Cons.prems False have rec: "sendAll (cs(c0 := cs c0)) rest msg (f + 1) = Inr (cs', f')"
      by (simp add: trySend_def split: if_splits)
    from Cons.IH [OF rec] someSendFails_Cons_full [of cs c0 rest] False
    show ?thesis by (simp add: fun_upd_def)
  qed
qed

lemma full_someSendFails:
  assumes "c \<in> set subs" "cap (cs c) \<le> length (buf (cs c))"
  shows "someSendFails cs subs"
proof -
  have "count_list subs c \<noteq> 0" using assms(1) by (simp add: count_list_0_iff)
  then show ?thesis
    unfolding someSendFails_def using assms by (intro bexI [of _ c]) auto
qed

text \<open>
  Claim C9, as the code has it. A call of \<open>Dispatch\<close> that returns reports an error exactly
  when the path has no subscriber or one of the non-blocking sends found its channel full;
  in particular a subscriber whose channel is already full makes the call report an error.
  The subscriber lists are left as they are, full channels included, unless the event is a
  \<open>delete\<close> at the same level on a path that has subscribers: then the entry of the path is
  dropped. After a same-level \<open>delete\<close> the path has no clients in either case.
\<close>

theorem Dispatch_contract:
  assumes "Dispatch now h path payload sameLevel eventType = Inr (h', err)"
  shows "(err \<noteq> None \<longleftrightarrow> subscribersOf h path = [] \<or> someSendFails (chans h) (subscribersOf h path))
    \<and> (\<forall>c \<in> set (subscribersOf h path). cap (chans h c) \<le> length (buf (chans h c)) \<longrightarrow> err \<noteq> None)
    \<and> clientChans h' =
           (if eventType = ''delete'' \<and> sameLevel \<and> subscribersOf h path \<noteq> [] then (clientChans h)(path := None)
            else clientChans h)
    \<and> (eventType = ''delete'' \<and> sameLevel \<longrightarrow> \<not> HasClients h' path)"
proof (cases "subscribersOf h path = []")
  case True
  with assms have "h' = h" "err = Some ''no clients to notify''"
    by (auto simp: Dispatch_def subscribersOf_def split: option.splits)
  with True show ?thesis
    by (auto simp: HasClients_def subscribersOf_def split: option.splits)
next
  case False
  then obtain subs where subs: "clientChans h path = Some subs" "subs \<noteq> []" "subscribersOf h path = subs"
    by (auto simp: subscribersOf_def split: option.splits)
  with assms obtain cs' failed where
    send: "sendAll (chans h) subs (eventMessage eventType payload now) 0 = Inr (cs', failed)"
    by (auto simp: Dispatch_def split: sum.splits)
  from sendAll_failed [OF send] have failed: "0 < failed \<longleftrightarrow> someSendFails (chans h) subs" by simp
  from assms subs send have
    err: "err = (if 0 < failed then Some ''message dispatch failed to some clients'' else None)"
    and h': "clientChans h' = (if eventType = ''delete'' \<and> sameLevel then (clientChans h)(path := None) else clientChans h)"
    by (auto simp: Dispatch_def Let_def split: if_splits)
  have 1: "err \<noteq> None \<longleftrightarrow> someSendFails (chans h) subs"
    using err failed by simp
  have 2: "\<forall>c \<in> set subs. cap (chans h c) \<le> length (buf (chans h c)) \<longrightarrow> err \<noteq> None"
    using 1 full_someSendFails by blast
  have 4: "eventType = ''delete'' \<and> sameLevel \<longrightarrow> \<not> HasClients h' path"
    using h' by (simp add: HasClients_def)
  show ?thesis using 1 2 4 h' subs False by simp
qed

text \<open>
  The claim as written fails where the path has no subscriber: \<open>Dispatch\<close> returns the error
  "no clients to notify" although no send was attempted, so none failed.
\<close>

theorem Dispatch_error_without_failed_send:
  "Dispatch 7 NewHandler ''/v1/db/doc'' ''1'' True ''update''
     = Inr (NewHandler, Some ''no clients to notify'')
   \<and> \<not> someSendFails (chans NewHandler) (subscribersOf NewHandler ''/v1/db/doc'')"
  by (simp add: Dispatch_def NewHandler_def someSendFails_def subscribersOf_def)

theorem Dispatch_contract_witness:
  "Dispatch 7 twoClients ''/v1/db/doc'' ''1'' False ''update''
     = Inr (twoClients\<lparr>chans := (chans twoClients)
               (1 := newChan\<lparr>buf := [eventMessage ''update'' ''1'' 7]\<rparr>)\<rparr>,
            Some ''message dispatch failed to some clients'')
   \<and> subscribersOf twoClients ''/v1/db/doc'' = [0, 1]
   \<and> someSendFails (chans twoClients) [0, 1]
   \<and> cap (chans twoClients 0) \<le> length (buf (chans twoClients 0))
   \<and> clientChans (twoClients\<lparr>chans := (chans twoClients)
               (1 := newChan\<lparr>buf := [eventMessage ''update'' ''1'' 7]\<rparr>)\<rparr>) = clientChans twoClients
   \<and> HasClients twoClients ''/v1/db/doc''"
proof -
  have d: "Dispatch 7 twoClients ''/v1/db/doc'' ''1'' False ''update''
     = Inr (twoClients\<lparr>chans := (chans twoClients)
               (1 := newChan\<lparr>buf := [eventMessage ''update'' ''1'' 7]\<rparr>)\<rparr>,
            Some ''message dispatch failed to some clients'')"
    by (simp add: Dispatch_def twoClients_def Register_def NewHandler_def trySend_def newChan_def
        fullChan_def fun_upd_twist)
  have s: "subscribersOf twoClients ''/v1/db/doc'' = [0, 1]"
    by (simp add: subscribersOf_def twoClients_def Register_def NewHandler_def)
  have c: "cap (chans twoClients 0) \<le> length (buf (chans twoClients 0))"
    by (simp add: twoClients_def fullChan_def)
  show ?thesis
    using Dispatch_contract [OF d] d s c by (simp add: HasClients_def twoClients_def Register_def NewHandler_def)
qed

section \<open>The skip list: searching\<close>

lemma inv_link:
  assumes "sl_inv sl" "live sl a" "loadNext sl a l = Inr (Some b)"
  shows "live sl b \<and> nodeKey (node sl a) < nodeKey (node sl b) \<and> l < length (nextNodes (node sl b))"
proof -
  from assms(2,3) have a: "a < length (nodes sl)" "l < length (nextNodes (node sl a))"
    "nextNodes (node sl a) ! l = Some b" "\<not> isMarked (node sl a)"
    by (auto simp: loadNext_def live_def split: if_splits)
  from assms(1) a(1) have "nodeOK sl a" by (simp add: sl_inv_def list_all_iff)
  with a(4) have "list_all (linkOK sl a) [0..<length (nextNodes (node sl a))]"
    by (simp add: nodeOK_def)
  with a(2) have "linkOK sl a l" by (simp add: list_all_iff)
  with a(3) show ?thesis by (simp add: linkOK_def)
qed

lemma inv_unlocked: "sl_inv sl \<Longrightarrow> live sl a \<Longrightarrow> \<not> mu (node sl a)"
  by (auto simp: sl_inv_def list_all_iff live_def nodeOK_def)

lemma walk_Inr:
  "walk n sl l k p cur = Inr (p', c') \<Longrightarrow>
     c' < length (nodes sl) \<and> k \<le> nodeKey (node sl c') \<and>
     ((p' = p \<and> cur = Some c') \<or>
      (p' < length (nodes sl) \<and> nodeKey (node sl p') < k \<and> loadNext sl p' l = Inr (Some c')))"
proof (induction n arbitrary: p cur)
  case 0
  then show ?case by simp
next
  case (Suc n)
  from Suc.prems obtain c where c: "cur = Some c" "c < length (nodes sl)"
    by (auto split: option.splits if_splits)
  show ?case
  proof (cases "k > nodeKey (node sl c)")
    case True
    with Suc.prems c obtain cur' where l: "loadNext sl c l = Inr cur'"
      and w: "walk n sl l k c cur' = Inr (p', c')"
      by (auto split: sum.splits)
    from Suc.IH [OF w] l True c show ?thesis by auto
  next
    case False
    with Suc.prems c show ?thesis by auto
  qed
qed

lemma walk_live:
  assumes "sl_inv sl"
  shows "walk n sl l k p cur = Inr (p', c') \<Longrightarrow> live sl p \<Longrightarrow> (\<And>c. cur = Some c \<Longrightarrow> live sl c) \<Longrightarrow>
     live sl p' \<and> live sl c'"
proof (induction n arbitrary: p cur)
  case 0
  then show ?case by simp
next
  case (Suc n)
  from Suc.prems(1) obtain c where c: "cur = Some c" "c < length (nodes sl)"
    by (auto split: option.splits if_splits)
  then have lc: "live sl c" using Suc.prems(3) by simp
  show ?case
  proof (cases "k > nodeKey (node sl c)")
    case True
    with Suc.prems(1) c obtain cur' where l: "loadNext sl c l = Inr cur'"
      and w: "walk n sl l k c cur' = Inr (p', c')"
      by (auto split: sum.splits)
    have "\<And>c2. cur' = Some c2 \<Longrightarrow> live sl c2"
      using inv_link [OF assms lc] l by simp
    from Suc.IH [OF w lc this] show ?thesis by simp
  next
    case False
    with Suc.prems c lc show ?thesis by auto
  qed
qed

lemma descend_Inr:
  assumes "sl_inv sl"
  shows "descend n sl lo L p = Inr p' \<Longrightarrow> live sl p \<Longrightarrow>
     live sl p' \<and> (0 < L \<longrightarrow> (\<exists>c. loadNext sl p' 0 = Inr (Some c) \<and> lo \<le> nodeKey (node sl c)))"
proof (induction L arbitrary: p)
  case 0
  then show ?case by simp
next
  case (Suc level)
  from Suc.prems(1) obtain cur0 p1 c1 where l: "loadNext sl p level = Inr cur0"
    and w: "walk n sl level lo p cur0 = Inr (p1, c1)"
    and d: "descend n sl lo level p1 = Inr p'"
    by (auto split: sum.splits)
  have "\<And>c. cur0 = Some c \<Longrightarrow> live sl c"
    using inv_link [OF assms Suc.prems(2)] l by simp
  from walk_live [OF assms w Suc.prems(2) this] have lp1: "live sl p1" by simp
  from walk_Inr [OF w] l have c1: "lo \<le> nodeKey (node sl c1)" "loadNext sl p1 level = Inr (Some c1)"
    by auto
  from Suc.IH [OF d lp1] have IH: "live sl p'"
    "0 < level \<longrightarrow> (\<exists>c. loadNext sl p' 0 = Inr (Some c) \<and> lo \<le> nodeKey (node sl c))"
    by simp_all
  show ?case
  proof (cases level)
    case 0
    with d have "p' = p1" by simp
    with c1 0 IH show ?thesis by auto
  next
    case (Suc m)
    with IH show ?thesis by simp
  qed
qed

lemma collect_sorted:
  assumes "sl_inv sl"
  shows "collect n sl hi (Some c) = Inr res \<Longrightarrow> live sl c \<Longrightarrow>
     sorted_wrt (<) (map fst res) \<and> (\<forall>k \<in> set (map fst res). nodeKey (node sl c) \<le> k \<and> k < hi)"
proof (induction n arbitrary: c res)
  case 0
  then show ?case by simp
next
  case (Suc n)
  show ?case
  proof (cases "nodeKey (node sl c) < hi")
    case False
    with Suc.prems show ?thesis by (auto split: if_splits)
  next
    case True
    with Suc.prems(1) obtain nxt rest where l: "loadNext sl c 0 = Inr nxt"
      and r: "collect n sl hi nxt = Inr rest"
      and res: "res = (if isFullyLinked (node sl c) \<and> \<not> isMarked (node sl c)
                       then (case nodeValue (node sl c) of None \<Rightarrow> []
                             | Some v \<Rightarrow> [(nodeKey (node sl c), v)])
                       else []) @ rest"
      by (auto split: sum.splits if_splits)
    have "nxt \<noteq> None"
    proof
      assume "nxt = None"
      with r show False by (cases n) auto
    qed
    then obtain c2 where c2: "nxt = Some c2" by auto
    from inv_link [OF assms Suc.prems(2)] l c2
    have lc2: "live sl c2" and lt: "nodeKey (node sl c) < nodeKey (node sl c2)" by simp_all
    from Suc.IH [OF r [unfolded c2] lc2]
    have IH: "sorted_wrt (<) (map fst rest)"
      "\<forall>k \<in> set (map fst rest). nodeKey (node sl c2) \<le> k \<and> k < hi" by simp_all
    have 1: "\<forall>k \<in> set (map fst rest). nodeKey (node sl c) < k \<and> k < hi"
      using IH(2) lt by auto
    have "res = rest \<or> (\<exists>v. res = (nodeKey (node sl c), v) # rest)"
      by (simp add: res split: option.splits)
    then show ?thesis
    proof
      assume "res = rest"
      with IH(1) 1 show ?thesis by (auto simp: less_imp_le)
    next
      assume "\<exists>v. res = (nodeKey (node sl c), v) # rest"
      then obtain v where "res = (nodeKey (node sl c), v) # rest" by blast
      with IH(1) 1 True show ?thesis by (auto simp: less_imp_le)
    qed
  qed
qed

section \<open>The skip list: range scans\<close>

lemma collectCopies_collect:
  "collectCopies n sl hi cp cur results copies = Inr (Inr (res', cps')) \<Longrightarrow>
     \<exists>more cs. collect n sl hi cur = Inr more \<and> res' = results @ more \<and> cps' = copies @ cs
        \<and> list_all2 (\<lambda>kv c. cp (snd kv) = Inr c) more cs"
proof (induction n arbitrary: cur results copies)
  case 0
  then show ?case by simp
next
  case (Suc n)
  from Suc.prems obtain c where c: "cur = Some c" "c < length (nodes sl)"
    by (auto split: option.splits if_splits)
  show ?case
  proof (cases "nodeKey (node sl c) < hi")
    case False
    with Suc.prems c show ?thesis by auto
  next
    case True
    note lt = this
    show ?thesis
    proof (cases "isFullyLinked (node sl c) \<and> \<not> isMarked (node sl c) \<and> nodeValue (node sl c) \<noteq> None")
      case False
      with Suc.prems c lt obtain nxt where l: "loadNext sl c 0 = Inr nxt"
        and r: "collectCopies n sl hi cp nxt results copies = Inr (Inr (res', cps'))"
        by (auto split: sum.splits option.splits if_splits)
      from Suc.IH [OF r] obtain more cs where
        "collect n sl hi nxt = Inr more" "res' = results @ more" "cps' = copies @ cs"
        "list_all2 (\<lambda>kv c. cp (snd kv) = Inr c) more cs" by blast
      with False c lt l show ?thesis by (auto split: option.splits)
    next
      case True
      then obtain v where v: "nodeValue (node sl c) = Some v" by auto
      with True Suc.prems c lt obtain vc nxt where cp: "cp v = Inr vc"
        and l: "loadNext sl c 0 = Inr nxt"
        and r: "collectCopies n sl hi cp nxt (results @ [(nodeKey (node sl c), v)]) (copies @ [vc])
                  = Inr (Inr (res', cps'))"
        by (auto split: sum.splits)
      from Suc.IH [OF r] obtain more cs where
        "collect n sl hi nxt = Inr more" "res' = (results @ [(nodeKey (node sl c), v)]) @ more"
        "cps' = (copies @ [vc]) @ cs"
        "list_all2 (\<lambda>kv c. cp (snd kv) = Inr c) more cs" by blast
      with True v c lt l cp show ?thesis
        by (intro exI [of _ "(nodeKey (node sl c), v) # more"] exI [of _ "vc # cs"]) simp
    qed
  qed
qed

lemma scan_from_descend:
  assumes inv: "sl_inv sl" and lvl: "1 \<le> slMaxLevel sl"
    and d: "descend n sl lo (slMaxLevel sl) (head sl) = Inr p"
    and l: "loadNext sl p 0 = Inr cur"
    and c: "collect n sl hi cur = Inr res"
  shows "sorted_wrt (<) (map fst res) \<and> (\<forall>k \<in> set (map fst res). lo \<le> k \<and> k < hi)"
proof -
  have lh: "live sl (head sl)" using inv by (simp add: sl_inv_def)
  from descend_Inr [OF inv d lh] lvl l obtain c0 where
    c0: "cur = Some c0" "lo \<le> nodeKey (node sl c0)" and lp: "live sl p"
    by auto
  from inv_link [OF inv lp] l c0 have "live sl c0" by simp
  from collect_sorted [OF inv c [unfolded c0(1)] this] c0(2) show ?thesis by auto
qed

lemma queryScan_sorted:
  assumes "sl_inv sl" "1 \<le> slMaxLevel sl"
  shows "queryScan n sl lo hi = Inr kvs \<Longrightarrow>
     sorted_wrt (<) (map fst kvs) \<and> (\<forall>k \<in> set (map fst kvs). lo \<le> k \<and> k < hi)"
proof (induction n)
  case 0
  then show ?case by simp
next
  case (Suc n)
  from Suc.prems obtain p cur res where
    d: "descend n sl lo (slMaxLevel sl) (head sl) = Inr p" and l: "loadNext sl p 0 = Inr cur"
    and c: "collect n sl hi cur = Inr res"
    and r: "kvs = res \<or> queryScan n sl lo hi = Inr kvs"
    by (auto simp: Let_def split: sum.splits if_splits)
  from r show ?case
  proof
    assume "kvs = res"
    with scan_from_descend [OF assms d l c] show ?thesis by simp
  next
    assume "queryScan n sl lo hi = Inr kvs"
    then show ?thesis by (rule Suc.IH)
  qed
qed

lemma copiesScan_sorted:
  assumes "sl_inv sl" "1 \<le> slMaxLevel sl"
  shows "copiesScan n sl lo hi cp = Inr (Inr kcs) \<Longrightarrow>
     sorted_wrt (<) (map fst kcs) \<and> (\<forall>k \<in> set (map fst kcs). lo \<le> k \<and> k < hi)"
proof (induction n)
  case 0
  then show ?case by simp
next
  case (Suc n)
  from Suc.prems obtain p cur res cps where
    d: "descend n sl lo (slMaxLevel sl) (head sl) = Inr p" and l: "loadNext sl p 0 = Inr cur"
    and c: "collectCopies n sl hi cp cur [] [] = Inr (Inr (res, cps))"
    and r: "kcs = zip (map fst res) cps \<or> copiesScan n sl lo hi cp = Inr (Inr kcs)"
    by (auto simp: Let_def split: sum.splits if_splits)
  from r show ?case
  proof
    assume k: "kcs = zip (map fst res) cps"
    from collectCopies_collect [OF c] obtain more cs where
      m: "collect n sl hi cur = Inr more" "res = more" "cps = cs"
      "list_all2 (\<lambda>kv c. cp (snd kv) = Inr c) more cs" by auto
    then have "length cps = length res" by (auto dest: list_all2_lengthD)
    then have "map fst kcs = map fst res" by (simp add: k)
    with scan_from_descend [OF assms d l m(1)] m(2) show ?thesis by simp
  next
    assume "copiesScan n sl lo hi cp = Inr (Inr kcs)"
    then show ?thesis by (rule Suc.IH)
  qed
qed

text \<open>
  On a well-formed list with at least one level below the top, every sequence that
  \<open>Query\<close> or \<open>QueryCopies\<close> returns is the sequence of the values (or of their copies)
  of nodes whose keys are strictly ascending and lie in \<open>[lo, hi)\<close>.
\<close>

lemma scans_on_well_formed:
  assumes "sl_inv sl" "1 \<le> slMaxLevel sl"
  shows "(Query fuel sl lo hi = Inr vs \<longrightarrow>
            (\<exists>kvs. queryScan fuel sl lo hi = Inr kvs \<and> vs = map snd kvs
               \<and> sorted_wrt (<) (map fst kvs) \<and> (\<forall>k \<in> set (map fst kvs). lo \<le> k \<and> k < hi)))
       \<and> (QueryCopies fuel sl lo hi cp = Inr (Inr cs) \<longrightarrow>
            (\<exists>kcs. copiesScan fuel sl lo hi cp = Inr (Inr kcs) \<and> cs = map snd kcs
               \<and> sorted_wrt (<) (map fst kcs) \<and> (\<forall>k \<in> set (map fst kcs). lo \<le> k \<and> k < hi)))"
proof (intro conjI impI)
  assume "Query fuel sl lo hi = Inr vs"
  then obtain kvs where k: "queryScan fuel sl lo hi = Inr kvs" "vs = map snd kvs"
    by (auto simp: Query_def split: sum.splits)
  with queryScan_sorted [OF assms k(1)]
  show "\<exists>kvs. queryScan fuel sl lo hi = Inr kvs \<and> vs = map snd kvs
               \<and> sorted_wrt (<) (map fst kvs) \<and> (\<forall>k \<in> set (map fst kvs). lo \<le> k \<and> k < hi)"
    by blast
next
  assume "QueryCopies fuel sl lo hi cp = Inr (Inr cs)"
  then obtain kcs where k: "copiesScan fuel sl lo hi cp = Inr (Inr kcs)" "cs = map snd kcs"
    by (auto simp: QueryCopies_def split: sum.splits)
  with copiesScan_sorted [OF assms k(1)]
  show "\<exists>kcs. copiesScan fuel sl lo hi cp = Inr (Inr kcs) \<and> cs = map snd kcs
               \<and> sorted_wrt (<) (map fst kcs) \<and> (\<forall>k \<in> set (map fst kcs). lo \<le> k \<and> k < hi)"
    by blast
qed

section \<open>The skip list: what \<open>find\<close> returns\<close>

lemma findFrom_step:
  assumes "findFrom n sl k (Suc level) p fl ps ss = Inr r"
  obtains cur0 p1 c1 fl1 where "loadNext sl p level = Inr cur0"
    "walk n sl level k p cur0 = Inr (p1, c1)"
    "fl1 = (if fl = None \<and> k = nodeKey (node sl c1) then Some level else fl)"
    "findFrom n sl k level p1 fl1 (p1 # ps) (c1 # ss) = Inr r"
proof (cases "loadNext sl p level")
  case (Inl f)
  with assms show ?thesis by simp
next
  case (Inr cur0)
  note l = this
  show ?thesis
  proof (cases "walk n sl level k p cur0")
    case (Inl f)
    with assms l show ?thesis by simp
  next
    case (Inr pc)
    with assms l that [of cur0 "fst pc" "snd pc"] show ?thesis
      by (cases pc) simp
  qed
qed

lemma foundOK_step:
  assumes "foundOK sl k fl1 fl' ts level"
    "fl1 = (if fl = None \<and> k = nodeKey (node sl c1) then Some level else fl)"
    "length ts = level"
  shows "foundOK sl k fl fl' (ts @ [c1]) (Suc level)"
proof (cases fl)
  case (Some l)
  with assms show ?thesis by (simp add: foundOK_def)
next
  case None
  show ?thesis
  proof (cases "k = nodeKey (node sl c1)")
    case True
    with None assms show ?thesis by (simp add: foundOK_def nth_append)
  next
    case False
    with None assms(2) have "fl1 = None" by simp
    with assms(1) have c: "case fl' of None \<Rightarrow> \<forall>j<level. nodeKey (node sl (ts ! j)) \<noteq> k
                                 | Some j \<Rightarrow> j < level \<and> nodeKey (node sl (ts ! j)) = k"
      by (simp add: foundOK_def)
    show ?thesis
    proof (cases fl')
      case None
      with c False assms(3) \<open>fl = None\<close> show ?thesis
        by (auto simp: foundOK_def nth_append less_Suc_eq)
    next
      case (Some j)
      with c assms(3) \<open>fl = None\<close> show ?thesis
        by (auto simp: foundOK_def nth_append)
    qed
  qed
qed

lemma findFrom_facts:
  assumes inv: "sl_inv sl"
  shows "findFrom n sl k L p fl ps ss = Inr (fl', ps', ss') \<Longrightarrow> live sl p \<Longrightarrow>
     p = head sl \<or> nodeKey (node sl p) < k \<Longrightarrow>
     \<exists>qs ts. ps' = qs @ ps \<and> ss' = ts @ ss \<and> length qs = L \<and> length ts = L \<and>
       (\<forall>j<L. levelOK sl k (qs ! j) (ts ! j) j) \<and> foundOK sl k fl fl' ts L"
proof (induction L arbitrary: p fl ps ss)
  case 0
  then show ?case by (simp add: foundOK_def split: option.splits)
next
  case (Suc level)
  from Suc.prems(1) obtain cur0 p1 c1 fl1 where l: "loadNext sl p level = Inr cur0"
    and w: "walk n sl level k p cur0 = Inr (p1, c1)"
    and fl1: "fl1 = (if fl = None \<and> k = nodeKey (node sl c1) then Some level else fl)"
    and r: "findFrom n sl k level p1 fl1 (p1 # ps) (c1 # ss) = Inr (fl', ps', ss')"
    by (rule findFrom_step)
  have "\<And>c. cur0 = Some c \<Longrightarrow> live sl c"
    using inv_link [OF inv Suc.prems(2)] l by simp
  from walk_live [OF inv w Suc.prems(2) this] have lp1: "live sl p1" and lc1: "live sl c1"
    by simp_all
  from walk_Inr [OF w] have "k \<le> nodeKey (node sl c1)"
    "(p1 = p \<and> cur0 = Some c1) \<or> (nodeKey (node sl p1) < k \<and> loadNext sl p1 level = Inr (Some c1))"
    by blast+
  with l Suc.prems(3) have c1: "k \<le> nodeKey (node sl c1)"
    "loadNext sl p1 level = Inr (Some c1)" "p1 = head sl \<or> nodeKey (node sl p1) < k"
    by auto
  have ok: "levelOK sl k p1 c1 level"
    using lp1 lc1 c1 by (simp add: levelOK_def)
  from Suc.IH [OF r lp1 c1(3)] obtain qs ts where
    IH: "ps' = qs @ p1 # ps" "ss' = ts @ c1 # ss" "length qs = level" "length ts = level"
      "\<forall>j<level. levelOK sl k (qs ! j) (ts ! j) j" "foundOK sl k fl1 fl' ts level"
    by blast
  have A: "\<forall>j<Suc level. levelOK sl k ((qs @ [p1]) ! j) ((ts @ [c1]) ! j) j"
    using IH(3,4,5) ok by (simp add: nth_append less_Suc_eq)
  have B: "foundOK sl k fl fl' (ts @ [c1]) (Suc level)"
    using foundOK_step [OF IH(6) fl1 IH(4)] .
  show ?case
    using IH(1-4) A B
    by (intro exI [of _ "qs @ [p1]"] exI [of _ "ts @ [c1]"]) simp
qed

lemma find_facts:
  assumes inv: "sl_inv sl" and f: "find n sl k = Inr (lf, ps, ss)"
  shows "length ps = slMaxLevel sl + 1" "length ss = slMaxLevel sl + 1"
    and "\<And>j. j \<le> slMaxLevel sl \<Longrightarrow> levelOK sl k (ps ! j) (ss ! j) j"
    and "\<And>l. lf = Some l \<Longrightarrow> l \<le> slMaxLevel sl \<and> nodeKey (node sl (ss ! l)) = k"
proof -
  have lh: "live sl (head sl)" using inv by (simp add: sl_inv_def)
  from findFrom_facts [OF inv f [unfolded find_def] lh] have
    q: "length ps = slMaxLevel sl + 1" "length ss = slMaxLevel sl + 1"
      "\<forall>j<Suc (slMaxLevel sl). levelOK sl k (ps ! j) (ss ! j) j"
      "foundOK sl k None lf ss (slMaxLevel sl + 1)"
    by auto
  show "length ps = slMaxLevel sl + 1" "length ss = slMaxLevel sl + 1" using q by simp_all
  show "\<And>j. j \<le> slMaxLevel sl \<Longrightarrow> levelOK sl k (ps ! j) (ss ! j) j"
    using q(3) by (simp add: less_Suc_eq_le)
  show "\<And>l. lf = Some l \<Longrightarrow> l \<le> slMaxLevel sl \<and> nodeKey (node sl (ss ! l)) = k"
    using q(4) by (auto simp: foundOK_def)
qed

section \<open>The skip list: locks\<close>

lemma node_setNode:
  "node (setNode sl a n) b = (if b = a \<and> a < length (nodes sl) then n else node sl b)"
  by (cases "a < length (nodes sl)") (auto simp: node_def setNode_def list_update_beyond)

lemma length_setNode [simp]: "length (nodes (setNode sl a n)) = length (nodes sl)"
  by (simp add: setNode_def)

lemma setNode_same: "a < length (nodes sl) \<Longrightarrow> n = node sl a \<Longrightarrow> setNode sl a n = sl"
  by (simp add: setNode_def node_def)

lemma setNode_setNode: "setNode (setNode sl a n) a n' = setNode sl a n'"
  by (simp add: setNode_def)

lemma lockNode_Inr:
  "lockNode sl a = Inr sl' \<Longrightarrow>
     a < length (nodes sl) \<and> \<not> mu (node sl a) \<and> sl' = setNode sl a ((node sl a)\<lparr>mu := True\<rparr>)"
  by (auto simp: lockNode_def split: if_splits)

lemma unlock_lock: "lockNode sl a = Inr sl' \<Longrightarrow> unlockNode sl' a = sl"
proof -
  assume "lockNode sl a = Inr sl'"
  from lockNode_Inr [OF this] have a: "a < length (nodes sl)" "\<not> mu (node sl a)"
    and sl': "sl' = setNode sl a ((node sl a)\<lparr>mu := True\<rparr>)" by simp_all
  have "(node sl a)\<lparr>mu := False\<rparr> = node sl a" using a(2) by simp
  then show ?thesis
    using a(1) by (simp add: unlockNode_def sl' node_setNode setNode_setNode setNode_same)
qed

lemma locksOnly_refl: "locksOnly sl sl"
  by (simp add: locksOnly_def)

lemma locksOnly_trans: "locksOnly sl sl1 \<Longrightarrow> locksOnly sl1 sl2 \<Longrightarrow> locksOnly sl sl2"
proof -
  assume 1: "locksOnly sl sl1" and 2: "locksOnly sl1 sl2"
  have "sl2\<lparr>nodes := nodes sl\<rparr> = (sl2\<lparr>nodes := nodes sl1\<rparr>)\<lparr>nodes := nodes sl\<rparr>" by simp
  also have "\<dots> = sl1\<lparr>nodes := nodes sl\<rparr>" using 2 by (simp add: locksOnly_def)
  also have "\<dots> = sl" using 1 by (simp add: locksOnly_def)
  finally have "sl2\<lparr>nodes := nodes sl\<rparr> = sl" .
  then show ?thesis using 1 2 by (simp add: locksOnly_def)
qed

lemma locksOnly_setNode_mu:
  "locksOnly sl (setNode sl a ((node sl a)\<lparr>mu := m\<rparr>))"
  by (auto simp: locksOnly_def node_setNode) (simp add: setNode_def)

lemma locksOnly_lockNode: "lockNode sl a = Inr sl' \<Longrightarrow> locksOnly sl sl'"
  using lockNode_Inr locksOnly_setNode_mu by blast

lemma locksOnly_unlockNode: "locksOnly sl (unlockNode sl a)"
  by (simp add: unlockNode_def locksOnly_setNode_mu)

lemma locksOnly_node:
  assumes "locksOnly sl sl'" "a < length (nodes sl)"
  shows "nodeKey (node sl' a) = nodeKey (node sl a)"
    and "nodeValue (node sl' a) = nodeValue (node sl a)"
    and "maxLevel (node sl' a) = maxLevel (node sl a)"
    and "isMarked (node sl' a) = isMarked (node sl a)"
    and "isFullyLinked (node sl' a) = isFullyLinked (node sl a)"
    and "nextNodes (node sl' a) = nextNodes (node sl a)"
proof -
  from assms have e: "(node sl' a)\<lparr>mu := False\<rparr> = (node sl a)\<lparr>mu := False\<rparr>"
    by (simp add: locksOnly_def)
  show "nodeKey (node sl' a) = nodeKey (node sl a)"
    using arg_cong [OF e, of nodeKey] by simp
  show "nodeValue (node sl' a) = nodeValue (node sl a)"
    using arg_cong [OF e, of nodeValue] by simp
  show "maxLevel (node sl' a) = maxLevel (node sl a)"
    using arg_cong [OF e, of maxLevel] by simp
  show "isMarked (node sl' a) = isMarked (node sl a)"
    using arg_cong [OF e, of isMarked] by simp
  show "isFullyLinked (node sl' a) = isFullyLinked (node sl a)"
    using arg_cong [OF e, of isFullyLinked] by simp
  show "nextNodes (node sl' a) = nextNodes (node sl a)"
    using arg_cong [OF e, of nextNodes] by simp
qed

lemma locksOnly_length: "locksOnly sl sl' \<Longrightarrow> length (nodes sl') = length (nodes sl)"
  by (simp add: locksOnly_def)

lemma locksOnly_live: "locksOnly sl sl' \<Longrightarrow> live sl' a = live sl a"
  by (auto simp: live_def locksOnly_length locksOnly_node(4))

lemma locksOnly_loadNext: "locksOnly sl sl' \<Longrightarrow> loadNext sl' a l = loadNext sl a l"
  by (auto simp: loadNext_def locksOnly_length locksOnly_node(6))

lemma locksOnly_unlockAll: "locksOnly sl (unlockAll sl locked)"
proof (induction locked arbitrary: sl)
  case Nil
  then show ?case by (simp add: unlockAll_def locksOnly_refl)
next
  case (Cons a locked)
  have "unlockAll sl (a # locked) = unlockAll (unlockNode sl a) locked"
    by (simp add: unlockAll_def)
  with Cons [of "unlockNode sl a"] locksOnly_unlockNode [of sl a] show ?case
    by (auto intro: locksOnly_trans)
qed

text \<open>
  The lock loop changes locks only, and unlocking what it has locked gives back the state
  it started from.
\<close>

lemma lockLoop_unlock:
  "lockLoop n sl ps ss l locked = Inr (sl2, locked2, valid) \<Longrightarrow>
     unlockAll sl2 locked2 = unlockAll sl locked \<and> locksOnly sl sl2"
proof (induction n arbitrary: sl l locked)
  case 0
  then show ?case by (simp add: locksOnly_refl)
next
  case (Suc n)
  from Suc.prems have rng: "l < length ps" "l < length ss" by (auto split: if_splits)
  show ?case
  proof (cases "ps ! l \<in> set locked")
    case True
    with Suc.prems rng have
      "(sl2, locked2, valid) = (sl, locked, False) \<or>
       lockLoop n sl ps ss (l + 1) locked = Inr (sl2, locked2, valid)"
      by (auto simp: Let_def split: sum.splits if_splits)
    with Suc.IH show ?thesis by (auto simp: locksOnly_refl)
  next
    case False
    with Suc.prems rng obtain sl1 where lk: "lockNode sl (ps ! l) = Inr sl1"
      and r: "(sl2, locked2, valid) = (sl1, ps ! l # locked, False) \<or>
              lockLoop n sl1 ps ss (l + 1) (ps ! l # locked) = Inr (sl2, locked2, valid)"
      by (auto simp: Let_def split: sum.splits if_splits)
    have u: "unlockAll sl1 (ps ! l # locked) = unlockAll sl locked"
      using unlock_lock [OF lk] by (simp add: unlockAll_def)
    from r show ?thesis
    proof
      assume "(sl2, locked2, valid) = (sl1, ps ! l # locked, False)"
      with u locksOnly_lockNode [OF lk] show ?thesis by simp
    next
      assume "lockLoop n sl1 ps ss (l + 1) (ps ! l # locked) = Inr (sl2, locked2, valid)"
      from Suc.IH [OF this] u locksOnly_lockNode [OF lk] show ?thesis
        by (auto intro: locksOnly_trans)
    qed
  qed
qed

text \<open>
  When every level to be validated has a live predecessor that is unlocked or already in
  the set, linked to a live successor, the loop locks its way through and reports
  \<open>valid\<close>.
\<close>

lemma lockLoop_valid:
  assumes "\<And>j. l \<le> j \<Longrightarrow> j < l + n \<Longrightarrow>
             j < length ps \<and> j < length ss \<and> (ps ! j \<in> set locked \<or> \<not> mu (node sl (ps ! j)))
             \<and> live sl (ps ! j) \<and> live sl (ss ! j) \<and> loadNext sl (ps ! j) j = Inr (Some (ss ! j))"
  shows "\<exists>sl2 locked2. lockLoop n sl ps ss l locked = Inr (sl2, locked2, True)"
  using assms
proof (induction n arbitrary: sl l locked)
  case 0
  then show ?case by simp
next
  case (Suc n)
  from Suc.prems [of l] have here: "l < length ps" "l < length ss"
    "ps ! l \<in> set locked \<or> \<not> mu (node sl (ps ! l))"
    "live sl (ps ! l)" "live sl (ss ! l)" "loadNext sl (ps ! l) l = Inr (Some (ss ! l))"
    by simp_all
  show ?case
  proof (cases "ps ! l \<in> set locked")
    case True
    have "\<exists>sl2 locked2. lockLoop n sl ps ss (l + 1) locked = Inr (sl2, locked2, True)"
      by (rule Suc.IH) (use Suc.prems in auto)
    with True here show ?thesis by (auto simp: live_def)
  next
    case False
    with here have "\<not> mu (node sl (ps ! l))" by simp
    with here(4) obtain sl1 where lk: "lockNode sl (ps ! l) = Inr sl1"
      and sl1: "sl1 = setNode sl (ps ! l) ((node sl (ps ! l))\<lparr>mu := True\<rparr>)"
      by (auto simp: lockNode_def live_def)
    note lo = locksOnly_lockNode [OF lk]
    have mu1: "\<And>a. mu (node sl1 a) \<Longrightarrow> a = ps ! l \<or> mu (node sl a)"
      by (auto simp: sl1 node_setNode split: if_splits)
    have "\<exists>sl2 locked2. lockLoop n sl1 ps ss (l + 1) (ps ! l # locked) = Inr (sl2, locked2, True)"
    proof (rule Suc.IH)
      fix j assume j: "l + 1 \<le> j" "j < l + 1 + n"
      with Suc.prems [of j] have
        "j < length ps \<and> j < length ss \<and> (ps ! j \<in> set locked \<or> \<not> mu (node sl (ps ! j)))
             \<and> live sl (ps ! j) \<and> live sl (ss ! j) \<and> loadNext sl (ps ! j) j = Inr (Some (ss ! j))"
        by simp
      then show "j < length ps \<and> j < length ss
             \<and> (ps ! j \<in> set (ps ! l # locked) \<or> \<not> mu (node sl1 (ps ! j)))
             \<and> live sl1 (ps ! j) \<and> live sl1 (ss ! j) \<and> loadNext sl1 (ps ! j) j = Inr (Some (ss ! j))"
        using mu1 [of "ps ! j"] by (auto simp: locksOnly_live [OF lo] locksOnly_loadNext [OF lo])
    qed
    moreover have "loadNext sl1 (ps ! l) l = Inr (Some (ss ! l))"
      using here(6) by (simp add: locksOnly_loadNext [OF lo])
    moreover have "\<not> isMarked (node sl1 (ps ! l))" "\<not> isMarked (node sl1 (ss ! l))"
      using here(4,5) locksOnly_live [OF lo] by (auto simp: live_def)
    ultimately show ?thesis using False here(1,2) lk by auto
  qed
qed

section \<open>The skip list: Upsert on a well-formed list\<close>

lemma update_mu_value:
  "n\<lparr>nodeValue := v, mu := m\<rparr> = n\<lparr>mu := m, nodeValue := v\<rparr>"
  by (cases n) simp

lemma unlockNode_setValue:
  "unlockNode (setValue sl a v) b = setValue (unlockNode sl b) a v"
proof (cases "a = b")
  case True
  show ?thesis
  proof (cases "a < length (nodes sl)")
    case True
    with \<open>a = b\<close> show ?thesis
      by (simp add: unlockNode_def setValue_def node_setNode setNode_setNode update_mu_value)
  next
    case False
    with \<open>a = b\<close> show ?thesis
      by (simp add: unlockNode_def setValue_def node_setNode setNode_def list_update_beyond)
  qed
next
  case False
  then show ?thesis
    by (simp add: unlockNode_def setValue_def node_setNode)
       (simp add: setNode_def list_update_swap)
qed

lemma unlockAll_setValue:
  "unlockAll (setValue sl a v) locked = setValue (unlockAll sl locked) a v"
  by (induction locked arbitrary: sl) (simp_all add: unlockAll_def unlockNode_setValue)

lemma unlockNode_commute:
  "unlockNode (unlockNode sl a) b = unlockNode (unlockNode sl b) a"
proof (cases "a = b")
  case True
  then show ?thesis by simp
next
  case False
  then show ?thesis
    by (simp add: unlockNode_def node_setNode) (simp add: setNode_def list_update_swap)
qed

lemma unlockAll_unlockNode:
  "unlockAll (unlockNode sl a) locked = unlockNode (unlockAll sl locked) a"
proof (induction locked arbitrary: sl)
  case Nil
  then show ?case by (simp add: unlockAll_def)
next
  case (Cons b locked)
  have "unlockAll (unlockNode sl a) (b # locked) = unlockAll (unlockNode (unlockNode sl b) a) locked"
    by (simp add: unlockAll_def unlockNode_commute)
  also have "\<dots> = unlockNode (unlockAll (unlockNode sl b) locked) a" by (rule Cons)
  finally show ?case by (simp add: unlockAll_def)
qed

lemma setValue_same:
  "a < length (nodes sl) \<Longrightarrow> v = nodeValue (node sl a) \<Longrightarrow> setValue sl a v = sl"
  by (simp add: setValue_def setNode_same)

lemma randomLevelFrom_le:
  "fst (randomLevelFrom m lvl coins) \<le> max lvl (m - 1)"
  by (induction m lvl coins rule: randomLevelFrom.induct) auto

lemma randomLevel_le: "fst (randomLevel sl coins) \<le> slMaxLevel sl"
  using randomLevelFrom_le [of "slMaxLevel sl" 0 coins] by (simp add: randomLevel_def)

text \<open>
  One iteration of \<open>Upsert\<close> on a key that \<open>find\<close> meets at the top level of a fully
  linked node: the node and the predecessors of its levels are locked, the validation
  succeeds, and the check is called. Unlocking what was locked gives back the list.
\<close>

lemma Upsert_present_steps:
  assumes inv: "sl_inv sl" and key: "minKey sl < k" "k < maxKey sl"
    and f: "find fuel sl k = Inr (Some l, ps, ss)"
    and nf: "isFullyLinked (node sl (ss ! l))" "maxLevel (node sl (ss ! l)) = l"
  obtains sl2 locked where
    "Upsert (Suc fuel) coins sl k check
       = upsertCommit sl2 k check ps ss locked (Some (ss ! l)) l (nodeValue (node sl (ss ! l)))"
    "unlockNode (unlockAll sl2 locked) (ss ! l) = sl"
    "ss ! l < length (nodes sl)"
proof -
  let ?a = "ss ! l"
  note ff = find_facts [OF inv f]
  from ff(4) have l: "l \<le> slMaxLevel sl" and ka: "nodeKey (node sl ?a) = k" by simp_all
  from ff(3) [OF l] have la: "live sl ?a" by (simp add: levelOK_def)
  then have a: "?a < length (nodes sl)" "\<not> isMarked (node sl ?a)" by (simp_all add: live_def)
  from inv_unlocked [OF inv la] a(1) obtain sl1 where lk: "lockNode sl ?a = Inr sl1"
    and sl1: "sl1 = setNode sl ?a ((node sl ?a)\<lparr>mu := True\<rparr>)"
    by (simp add: lockNode_def)
  note lo = locksOnly_lockNode [OF lk]
  have loc: "upsertLocate sl (Some l) ss 0
               = Inr (sl1, Some (Some ?a, l, nodeValue (node sl ?a)))"
    using lk nf a by (simp add: upsertLocate_def Let_def locksOnly_node [OF lo a(1)])
  have head_key: "nodeKey (node sl (head sl)) = minKey sl" using inv by (simp add: sl_inv_def)
  have "\<exists>sl2 locked. lockLoop (l + 1) sl1 ps ss 0 [] = Inr (sl2, locked, True)"
  proof (rule lockLoop_valid)
    fix j assume "0 \<le> j" "j < 0 + (l + 1)"
    then have j: "j \<le> slMaxLevel sl" using l by simp
    from ff(3) [OF j] have ok: "live sl (ps ! j)" "live sl (ss ! j)"
      "loadNext sl (ps ! j) j = Inr (Some (ss ! j))"
      "ps ! j = head sl \<or> nodeKey (node sl (ps ! j)) < k"
      by (simp_all add: levelOK_def)
    from ok(4) head_key key(1) have "nodeKey (node sl (ps ! j)) < k" by auto
    with ka have ne: "ps ! j \<noteq> ?a" by auto
    have "\<not> mu (node sl1 (ps ! j))"
      using inv_unlocked [OF inv ok(1)] ne by (simp add: sl1 node_setNode)
    with ok j ff(1,2) show "j < length ps \<and> j < length ss
        \<and> (ps ! j \<in> set [] \<or> \<not> mu (node sl1 (ps ! j)))
        \<and> live sl1 (ps ! j) \<and> live sl1 (ss ! j) \<and> loadNext sl1 (ps ! j) j = Inr (Some (ss ! j))"
      by (simp add: locksOnly_live [OF lo] locksOnly_loadNext [OF lo])
  qed
  then obtain sl2 locked where ll: "lockLoop (l + 1) sl1 ps ss 0 [] = Inr (sl2, locked, True)"
    by blast
  from lockLoop_unlock [OF ll] have u: "unlockAll sl2 locked = sl1"
    by (simp add: unlockAll_def)
  have nk: "\<not> (k \<le> minKey sl \<or> k \<ge> maxKey sl)" using key by auto
  have 1: "Upsert (Suc fuel) coins sl k check
       = upsertCommit sl2 k check ps ss locked (Some ?a) l (nodeValue (node sl ?a))"
    using nk f loc ll by (simp del: lockLoop.simps)
  have 2: "unlockNode (unlockAll sl2 locked) ?a = sl"
    using u unlock_lock [OF lk] by simp
  from that [OF 1 2 a(1)] show ?thesis .
qed

lemma Upsert_present_error:
  assumes inv: "sl_inv sl" and key: "minKey sl < k" "k < maxKey sl"
    and f: "find fuel sl k = Inr (Some l, ps, ss)"
    and nf: "isFullyLinked (node sl (ss ! l))" "maxLevel (node sl (ss ! l)) = l"
    and chk: "check k (nodeValue (node sl (ss ! l))) True = Inr (cur', ret, Some e)"
  shows "Upsert (Suc fuel) coins sl k check = Inr (setValue sl (ss ! l) cur', True, Some e)"
proof -
  from Upsert_present_steps [OF inv key f nf, of coins check] obtain sl2 locked where
    s: "Upsert (Suc fuel) coins sl k check
       = upsertCommit sl2 k check ps ss locked (Some (ss ! l)) l (nodeValue (node sl (ss ! l)))"
    "unlockNode (unlockAll sl2 locked) (ss ! l) = sl" by blast
  show ?thesis
    unfolding s(1)
    by (simp add: upsertCommit_def chk unlockFound_def unlockAll_setValue unlockNode_setValue s(2))
qed

lemma Upsert_present_update:
  assumes inv: "sl_inv sl" and key: "minKey sl < k" "k < maxKey sl"
    and f: "find fuel sl k = Inr (Some l, ps, ss)"
    and nf: "isFullyLinked (node sl (ss ! l))" "maxLevel (node sl (ss ! l)) = l"
    and chk: "check k (nodeValue (node sl (ss ! l))) True = Inr (cur', None, None)"
  shows "Upsert (Suc fuel) coins sl k check
           = Inr (bumpOpCount (setValue sl (ss ! l) cur'), True, None)"
proof -
  from Upsert_present_steps [OF inv key f nf, of coins check] obtain sl2 locked where
    s: "Upsert (Suc fuel) coins sl k check
       = upsertCommit sl2 k check ps ss locked (Some (ss ! l)) l (nodeValue (node sl (ss ! l)))"
    "unlockNode (unlockAll sl2 locked) (ss ! l) = sl" by blast
  show ?thesis
    unfolding s(1)
    by (simp add: upsertCommit_def chk unlockAll_setValue unlockNode_setValue
        unlockAll_unlockNode s(2))
qed

text \<open>The same iteration on a key that \<open>find\<close> does not meet, when the check fails.\<close>

lemma Upsert_absent_error:
  assumes inv: "sl_inv sl" and key: "minKey sl < k" "k < maxKey sl"
    and f: "find fuel sl k = Inr (None, ps, ss)"
    and chk: "check k None False = Inr (cur', ret, Some e)"
  shows "Upsert (Suc fuel) coins sl k check = Inr (sl, True, Some e)"
proof -
  note ff = find_facts [OF inv f]
  obtain rt coins' where rl: "randomLevel sl coins = (rt, coins')" by (cases "randomLevel sl coins")
  with randomLevel_le [of sl coins] have rt: "rt \<le> slMaxLevel sl" by simp
  have "\<exists>sl2 locked. lockLoop (rt + 1) sl ps ss 0 [] = Inr (sl2, locked, True)"
  proof (rule lockLoop_valid)
    fix j assume "0 \<le> j" "j < 0 + (rt + 1)"
    then have j: "j \<le> slMaxLevel sl" using rt by simp
    from ff(3) [OF j] have ok: "live sl (ps ! j)" "live sl (ss ! j)"
      "loadNext sl (ps ! j) j = Inr (Some (ss ! j))"
      by (simp_all add: levelOK_def)
    with inv_unlocked [OF inv ok(1)] j ff(1,2) show "j < length ps \<and> j < length ss
        \<and> (ps ! j \<in> set [] \<or> \<not> mu (node sl (ps ! j)))
        \<and> live sl (ps ! j) \<and> live sl (ss ! j) \<and> loadNext sl (ps ! j) j = Inr (Some (ss ! j))"
      by simp
  qed
  then obtain sl2 locked where ll: "lockLoop (rt + 1) sl ps ss 0 [] = Inr (sl2, locked, True)"
    by blast
  from lockLoop_unlock [OF ll] have u: "unlockAll sl2 locked = sl"
    by (simp add: unlockAll_def)
  have nk: "\<not> (k \<le> minKey sl \<or> k \<ge> maxKey sl)" using key by auto
  show ?thesis
    using nk f rl ll chk u
    by (simp add: upsertLocate_def upsertCommit_def unlockFound_def del: lockLoop.simps)
qed

section \<open>Errors of the check\<close>

lemma Find_present:
  assumes "Find fuel sl k = Inr (cur, True)"
  obtains l ps ss where "find fuel sl k = Inr (Some l, ps, ss)"
    "cur = nodeValue (node sl (ss ! l))" "isFullyLinked (node sl (ss ! l))"
    "\<not> isMarked (node sl (ss ! l))" "maxLevel (node sl (ss ! l)) = l"
  using assms by (auto simp: Find_def Let_def split: sum.splits option.splits)

lemma absent_find:
  assumes "absent fuel sl k"
  obtains ps ss where "find fuel sl k = Inr (None, ps, ss)"
  using assms by (auto simp: absent_def split: sum.splits)

lemma Upsert_error_unchanged:
  assumes inv: "sl_inv sl" and key: "minKey sl < k" "k < maxKey sl"
    and chk: "check k cur ex = Inr (cur, ret, Some e)"
    and st: "(ex \<and> Find fuel sl k = Inr (cur, True)) \<or> (\<not> ex \<and> cur = None \<and> absent fuel sl k)"
  shows "Upsert (Suc fuel) coins sl k check = Inr (sl, True, Some e)"
  using st
proof
  assume p: "ex \<and> Find fuel sl k = Inr (cur, True)"
  then obtain l ps ss where f: "find fuel sl k = Inr (Some l, ps, ss)"
    and c: "cur = nodeValue (node sl (ss ! l))"
    and nf: "isFullyLinked (node sl (ss ! l))" "maxLevel (node sl (ss ! l)) = l"
    by (auto elim: Find_present)
  from find_facts(3) [OF inv f, of l] find_facts(4) [OF inv f] have "ss ! l < length (nodes sl)"
    by (simp add: levelOK_def live_def)
  then have "setValue sl (ss ! l) cur = sl" using c by (simp add: setValue_same)
  with Upsert_present_error [OF inv key f nf, of check cur ret e coins] chk p c
  show ?thesis by simp
next
  assume a: "\<not> ex \<and> cur = None \<and> absent fuel sl k"
  then obtain ps ss where f: "find fuel sl k = Inr (None, ps, ss)"
    by (auto elim: absent_find)
  from Upsert_absent_error [OF inv key f, of check cur ret e coins] chk a
  show ?thesis by simp
qed

lemma HandlePut_nooverwrite_collision:
  assumes inv: "sl_inv (Documents (c :: 'c Collection))"
    and key: "minKey (Documents c) < last (GetPath req)" "last (GetPath req) < maxKey (Documents c)"
    and req: "GetPath req \<noteq> []" "GetNoOverwrite req"
    and ok: "NewDocument codec now (''/v1/'' @ joinWith ''/'' (GetPath req)) (GetContent req)
                (GetUsername req) (GetValidator req) = Inr (newDoc :: 'c Document)"
    and present: "Find fuel (Documents c) (last (GetPath req)) = Inr (cur, True)"
  shows "Collection_HandlePut (Suc fuel) coins codec now now' c req
           = Inr (c, None, \<lparr>status_class = ''Document not overwritten'',
                             status_err = Some ''document already exists''\<rparr>)"
proof -
  have "Upsert (Suc fuel) coins (Documents c) (last (GetPath req)) (DocCheckNoOverwrite newDoc)
          = Inr (Documents c, True, Some ''document already exists'')"
    by (rule Upsert_error_unchanged [OF inv key, where cur = cur and ex = True and ret = None])
       (simp_all add: DocCheckNoOverwrite_def present)
  then show ?thesis
    using req ok by (simp add: Collection_HandlePut_def childNameOf_def Let_def)
qed

text \<open>
  Claim C10. On a well-formed list and a key strictly between the sentinels, when the
  check that \<open>Upsert\<close> calls returns an error and leaves the current value as it is,
  \<open>Upsert\<close> returns \<open>true\<close> with that error and the list is the one it started from, locks
  included: nothing is spliced, no value changes, the operation counter stays. The check
  is called with the value that \<open>Find\<close> reports for a key that is present, and with no
  value for a key that the search does not meet. A no-overwrite PUT on a document that is
  present therefore gets the class "Document not overwritten", which \<open>GetStatusCode\<close> maps
  to 412, and leaves the collection unchanged.
\<close>

theorem Upsert_check_error_returns_true:
  "(sl_inv sl \<and> minKey sl < k \<and> k < maxKey sl \<and> check k cur ex = Inr (cur, ret, Some e)
      \<and> ((ex \<and> Find fuel sl k = Inr (cur, True)) \<or> (\<not> ex \<and> cur = None \<and> absent fuel sl k))
    \<longrightarrow> Upsert (Suc fuel) coins sl k check = Inr (sl, True, Some e))
   \<and> (sl_inv (Documents (c :: 'c Collection)) \<and> minKey (Documents c) < last (GetPath req)
       \<and> last (GetPath req) < maxKey (Documents c) \<and> GetPath req \<noteq> [] \<and> GetNoOverwrite req
       \<and> NewDocument codec now (''/v1/'' @ joinWith ''/'' (GetPath req)) (GetContent req)
                (GetUsername req) (GetValidator req) = Inr (newDoc :: 'c Document)
       \<and> Find fuel (Documents c) (last (GetPath req)) = Inr (old, True)
    \<longrightarrow> Collection_HandlePut (Suc fuel) coins' codec now now' c req
           = Inr (c, None, \<lparr>status_class = ''Document not overwritten'',
                             status_err = Some ''document already exists''\<rparr>)
        \<and> GetStatusCode ''Document not overwritten'' = (412, False))"
  using Upsert_error_unchanged [of sl k check cur ex ret e fuel coins]
    HandlePut_nooverwrite_collision [of c req codec now newDoc fuel old coins' now']
  by (simp add: GetStatusCode_def)

section \<open>Evaluating the operations on concrete lists\<close>

lemmas sl_eval = find_def NewSkipList_def InitializeNode_def loadNext_def node_def
     randomLevel_def upsertLocate_def lockNode_def setNode_def upsertCommit_def
     unlockAll_def unlockNode_def unlockFound_def spliceNode_def setNext_def bumpOpCount_def
     setValue_def
     upserted_def fuel5_def eval_nat_numeral

lemma threeKeys_eq:
  "threeKeys =
     \<lparr>slMaxLevel = 2, head = 0, tail = 1, opCount = 3, maxKey = 100, minKey = 0,
      nodes =
        [\<lparr>mu = False, nodeKey = 0, nodeValue = None, maxLevel = 2, isMarked = False,
          isFullyLinked = False, nextNodes = [Some 2, Some 3, Some 1]\<rparr>,
         \<lparr>mu = False, nodeKey = 100, nodeValue = None, maxLevel = 2, isMarked = False,
          isFullyLinked = False, nextNodes = [None, None, None]\<rparr>,
         \<lparr>mu = False, nodeKey = 10, nodeValue = Some ''ten'', maxLevel = 0, isMarked = False,
          isFullyLinked = True, nextNodes = [Some 3]\<rparr>,
         \<lparr>mu = False, nodeKey = 20, nodeValue = Some ''twenty'', maxLevel = 1, isMarked = False,
          isFullyLinked = True, nextNodes = [Some 4, Some 1]\<rparr>,
         \<lparr>mu = False, nodeKey = 30, nodeValue = Some ''thirty'', maxLevel = 0, isMarked = False,
          isFullyLinked = True, nextNodes = [Some 1]\<rparr>]\<rparr>"
  by (simp add: threeKeys_def sl_eval NewNoOverwriteCheck_def)

lemma threeKeys_inv: "sl_inv threeKeys"
  by (simp add: threeKeys_eq sl_inv_def nodeOK_def linkOK_def live_def node_def eval_nat_numeral)

lemma scans_on_threeKeys:
  "sl_inv threeKeys \<and> 1 \<le> slMaxLevel threeKeys
   \<and> Query fuel5 threeKeys 10 30 = Inr [''ten'', ''twenty'']
   \<and> queryScan fuel5 threeKeys 10 30 = Inr [(10, ''ten''), (20, ''twenty'')]
   \<and> QueryCopies fuel5 threeKeys 10 30 DeepCopy = Inr (Inr [''ten'', ''twenty''])
   \<and> copiesScan fuel5 threeKeys 10 30 DeepCopy = Inr (Inr [(10, ''ten''), (20, ''twenty'')])
   \<and> sorted_wrt (<) [10, 20 :: int]"
proof -
  have q: "queryScan fuel5 threeKeys 10 30 = Inr [(10, ''ten''), (20, ''twenty'')]"
    by (simp add: threeKeys_eq sl_eval)
  have c: "copiesScan fuel5 threeKeys 10 30 DeepCopy = Inr (Inr [(10, ''ten''), (20, ''twenty'')])"
    by (simp add: threeKeys_eq sl_eval DeepCopy_def)
  have l: "1 \<le> slMaxLevel threeKeys" by (simp add: threeKeys_eq)
  have Q: "Query fuel5 threeKeys 10 30 = Inr [''ten'', ''twenty'']"
    by (simp add: Query_def q)
  have C: "QueryCopies fuel5 threeKeys 10 30 DeepCopy = Inr (Inr [''ten'', ''twenty''])"
    by (simp add: QueryCopies_def c)
  show ?thesis
    using scans_on_well_formed [OF threeKeys_inv l, of fuel5 10 30
        "[''ten'', ''twenty'']" DeepCopy "[''ten'', ''twenty'']"]
      threeKeys_inv l q c Q C
    by simp
qed

lemmas http_eval = Collection_HandlePut_def childNameOf_def putDoc1_def NewDocument_def
  demoCodec_def acceptAll_def emptyCollection_def DocCheckOverwrite_def DocCheckNoOverwrite_def
  minSentinel_def maxSentinel_def Let_def

lemma oneDocument_docs:
  "Documents oneDocument = upserted (NewSkipList 10 minSentinel maxSentinel) [] ''doc1''
      (DocCheckOverwrite 1000 doc1)"
  by (simp add: oneDocument_def http_eval doc1_def sl_eval)

lemma oneDocument_inv: "sl_inv (Documents oneDocument)"
  by (simp add: oneDocument_docs sl_eval http_eval sl_inv_def nodeOK_def linkOK_def live_def)

lemma oneDocument_Find: "Find fuel5 (Documents oneDocument) ''doc1'' = Inr (Some doc1, True)"
  by (simp add: oneDocument_docs sl_eval http_eval Find_def)

lemma oneDocument_keys:
  "minKey (Documents oneDocument) < ''doc1''" "''doc1'' < maxKey (Documents oneDocument)"
  by (simp_all add: oneDocument_docs sl_eval http_eval)

theorem Upsert_check_error_returns_true_witness:
  "sl_inv threeKeys \<and> minKey threeKeys < 20 \<and> 20 < maxKey threeKeys
   \<and> NewNoOverwriteCheck ''other'' (20::int) (Some ''twenty'') True
        = Inr (Some ''twenty'', None, Some ''Can't overwrite value'')
   \<and> Find fuel5 threeKeys 20 = Inr (Some ''twenty'', True)
   \<and> Upsert (Suc fuel5) [] threeKeys 20 (NewNoOverwriteCheck ''other'')
        = Inr (threeKeys, True, Some ''Can't overwrite value'')
   \<and> sl_inv (Documents oneDocument) \<and> GetNoOverwrite putDoc1NoOverwrite
   \<and> last (GetPath putDoc1NoOverwrite) = ''doc1''
   \<and> NewDocument demoCodec 2000 (''/v1/'' @ joinWith ''/'' (GetPath putDoc1NoOverwrite))
         (GetContent putDoc1NoOverwrite) (GetUsername putDoc1NoOverwrite)
         (GetValidator putDoc1NoOverwrite)
        = Inr (doc1\<lparr>Meta := \<lparr>CreatedBy = ''alice'', CreatedAt = 2000,
                              LastModifiedBy = ''alice'', LastModifiedAt = 2000\<rparr>\<rparr>)
   \<and> Find fuel5 (Documents oneDocument) ''doc1'' = Inr (Some doc1, True)
   \<and> Collection_HandlePut (Suc fuel5) [] demoCodec 2000 2000 oneDocument putDoc1NoOverwrite
        = Inr (oneDocument, None, \<lparr>status_class = ''Document not overwritten'',
                                    status_err = Some ''document already exists''\<rparr>)
   \<and> fst (GetStatusCode ''Document not overwritten'') = 412"
proof -
  have k: "minKey threeKeys < 20" "20 < maxKey threeKeys" by (simp_all add: threeKeys_eq)
  have c: "NewNoOverwriteCheck ''other'' (20::int) (Some ''twenty'') True
        = Inr (Some ''twenty'', None, Some ''Can't overwrite value'')"
    by (simp add: NewNoOverwriteCheck_def)
  have f: "Find fuel5 threeKeys 20 = Inr (Some ''twenty'', True)"
    by (simp add: threeKeys_eq sl_eval Find_def)
  have r: "GetNoOverwrite putDoc1NoOverwrite" "GetPath putDoc1NoOverwrite \<noteq> []"
    "last (GetPath putDoc1NoOverwrite) = ''doc1''"
    by (simp_all add: putDoc1NoOverwrite_def putDoc1_def)
  have n: "NewDocument demoCodec 2000 (''/v1/'' @ joinWith ''/'' (GetPath putDoc1NoOverwrite))
         (GetContent putDoc1NoOverwrite) (GetUsername putDoc1NoOverwrite)
         (GetValidator putDoc1NoOverwrite)
        = Inr (doc1\<lparr>Meta := \<lparr>CreatedBy = ''alice'', CreatedAt = 2000,
                              LastModifiedBy = ''alice'', LastModifiedAt = 2000\<rparr>\<rparr>)"
    by (simp add: putDoc1NoOverwrite_def http_eval doc1_def)
  show ?thesis
    using Upsert_check_error_returns_true [of threeKeys 20 "NewNoOverwriteCheck ''other''"
        "Some ''twenty''" True None "''Can't overwrite value''" fuel5 "[]"
        oneDocument putDoc1NoOverwrite demoCodec 2000
        "doc1\<lparr>Meta := \<lparr>CreatedBy = ''alice'', CreatedAt = 2000,
                              LastModifiedBy = ''alice'', LastModifiedAt = 2000\<rparr>\<rparr>"
        "Some doc1" "[]" 2000]
      threeKeys_inv k c f oneDocument_inv oneDocument_Find oneDocument_keys r n
    by (simp del: Upsert.simps)
qed

section \<open>Overwriting a value in place\<close>

text \<open>The search reads keys and next pointers only, so a change of a value does not move it.\<close>

lemma node_setValue:
  "nodeKey (node (setValue sl a v) b) = nodeKey (node sl b)"
  "nextNodes (node (setValue sl a v) b) = nextNodes (node sl b)"
  "isMarked (node (setValue sl a v) b) = isMarked (node sl b)"
  "isFullyLinked (node (setValue sl a v) b) = isFullyLinked (node sl b)"
  "maxLevel (node (setValue sl a v) b) = maxLevel (node sl b)"
  "nodeValue (node (setValue sl a v) b)
     = (if b = a \<and> a < length (nodes sl) then v else nodeValue (node sl b))"
  by (simp_all add: setValue_def node_setNode)

lemma setValue_fields [simp]:
  "length (nodes (setValue sl a v)) = length (nodes sl)"
  "slMaxLevel (setValue sl a v) = slMaxLevel sl" "head (setValue sl a v) = head sl"
  by (simp_all add: setValue_def setNode_def)

lemma bumpOpCount_fields [simp]:
  "nodes (bumpOpCount sl) = nodes sl" "slMaxLevel (bumpOpCount sl) = slMaxLevel sl"
  "head (bumpOpCount sl) = head sl" "node (bumpOpCount sl) a = node sl a"
  by (simp_all add: bumpOpCount_def node_def)

lemma loadNext_setValue [simp]: "loadNext (setValue sl a v) b l = loadNext sl b l"
  by (simp add: loadNext_def node_setValue)

lemma loadNext_bumpOpCount [simp]: "loadNext (bumpOpCount sl) b l = loadNext sl b l"
  by (simp add: loadNext_def)

lemma walk_setValue [simp]: "walk n (setValue sl a v) l k p cur = walk n sl l k p cur"
  by (induction n arbitrary: p cur) (auto simp: node_setValue split: option.splits sum.splits)

lemma walk_bumpOpCount [simp]: "walk n (bumpOpCount sl) l k p cur = walk n sl l k p cur"
  by (induction n arbitrary: p cur) (auto split: option.splits sum.splits)

lemma findFrom_setValue [simp]:
  "findFrom n (setValue sl a v) k L p fl ps ss = findFrom n sl k L p fl ps ss"
  by (induction L arbitrary: p fl ps ss) (simp_all add: node_setValue split: sum.splits)

lemma findFrom_bumpOpCount [simp]:
  "findFrom n (bumpOpCount sl) k L p fl ps ss = findFrom n sl k L p fl ps ss"
  by (induction L arbitrary: p fl ps ss) (simp_all split: sum.splits)

lemma find_updated [simp]: "find n (bumpOpCount (setValue sl a v)) k = find n sl k"
  by (simp add: find_def del: findFrom.simps)

lemma Find_updated_same:
  assumes "find n sl k = Inr (Some l, ps, ss)" "ss ! l < length (nodes sl)"
    "isFullyLinked (node sl (ss ! l))" "\<not> isMarked (node sl (ss ! l))"
    "maxLevel (node sl (ss ! l)) = l"
  shows "Find n (bumpOpCount (setValue sl (ss ! l) v)) k = Inr (v, True)"
  using assms by (simp add: Find_def node_setValue Let_def)

lemma Find_updated_other:
  assumes inv: "sl_inv sl" and a: "nodeKey (node sl a) \<noteq> k'"
  shows "Find n (bumpOpCount (setValue sl a v)) k' = Find n sl k'"
proof (cases "find n sl k'")
  case (Inl f)
  then show ?thesis by (simp add: Find_def)
next
  case (Inr r)
  then obtain lf ps ss where f: "find n sl k' = Inr (lf, ps, ss)" by (cases r) auto
  show ?thesis
  proof (cases lf)
    case None
    with f show ?thesis by (simp add: Find_def)
  next
    case (Some l)
    with find_facts(4) [OF inv f] a have "ss ! l \<noteq> a" by auto
    with f Some show ?thesis by (simp add: Find_def node_setValue Let_def)
  qed
qed

lemma NewDocument_Inr:
  "NewDocument codec now path content createdBy validator = Inr newDoc \<Longrightarrow>
     Contents newDoc = content \<and> CreatedBy (Meta newDoc) = createdBy"
  by (auto simp: NewDocument_def Let_def split: option.splits)

text \<open>
  Claim C6. A PUT in the default mode on a document \<open>d\<close> that \<open>Find\<close> reports present, in a
  well-formed collection, with a body that the validator accepts, is answered
  "Overwritten". Afterwards \<open>Find\<close> reports under the same name the document \<open>d\<close> with the
  content replaced by the body, \<open>lastModifiedAt\<close> set to the clock reading of the check and
  \<open>lastModifiedBy\<close> to the user of the request; its path, its collections, \<open>createdBy\<close> and
  \<open>createdAt\<close> are those of \<open>d\<close>, and what \<open>Find\<close> reports for any other name is as
  before. If the clock has not gone back behind \<open>createdAt\<close>, \<open>createdAt\<close> is at most
  \<open>lastModifiedAt\<close>.
\<close>

theorem put_overwrite_frame:
  assumes inv: "sl_inv (Documents (c :: 'c Collection))"
    and key: "minKey (Documents c) < last (GetPath req)" "last (GetPath req) < maxKey (Documents c)"
    and req: "GetPath req \<noteq> []" "\<not> GetNoOverwrite req"
    and ok: "NewDocument codec now (''/v1/'' @ joinWith ''/'' (GetPath req)) (GetContent req)
                (GetUsername req) (GetValidator req) = Inr (newDoc :: 'c Document)"
    and present: "Find fuel (Documents c) (last (GetPath req)) = Inr (Some d, True)"
  shows "\<exists>c' d'. Collection_HandlePut (Suc fuel) coins codec now now' c req
            = Inr (c', Some \<lparr>uri = ''/v1/'' @ joinWith ''/'' (GetPath req)\<rparr>,
                   \<lparr>status_class = ''Overwritten'', status_err = None\<rparr>)
         \<and> Find fuel (Documents c') (last (GetPath req)) = Inr (Some d', True)
         \<and> d' = d\<lparr>Contents := GetContent req,
                    Meta := (Meta d)\<lparr>LastModifiedAt := now', LastModifiedBy := GetUsername req\<rparr>\<rparr>
         \<and> DocPath d' = DocPath d \<and> Collections d' = Collections d
         \<and> CreatedBy (Meta d') = CreatedBy (Meta d) \<and> CreatedAt (Meta d') = CreatedAt (Meta d)
         \<and> (CreatedAt (Meta d) \<le> now' \<longrightarrow> CreatedAt (Meta d') \<le> LastModifiedAt (Meta d'))
         \<and> (\<forall>k'. k' \<noteq> last (GetPath req) \<longrightarrow>
                Find fuel (Documents c') k' = Find fuel (Documents c) k')
         \<and> ColPath c' = ColPath c \<and> Name c' = Name c"
proof -
  let ?k = "last (GetPath req)" and ?sl = "Documents c"
  let ?d' = "d\<lparr>Contents := GetContent req,
                Meta := (Meta d)\<lparr>LastModifiedAt := now', LastModifiedBy := GetUsername req\<rparr>\<rparr>"
  from present obtain l ps ss where f: "find fuel ?sl ?k = Inr (Some l, ps, ss)"
    and v: "Some d = nodeValue (node ?sl (ss ! l))"
    and nf: "isFullyLinked (node ?sl (ss ! l))" "maxLevel (node ?sl (ss ! l)) = l"
    and nm: "\<not> isMarked (node ?sl (ss ! l))"
    by (auto elim: Find_present)
  note nd = NewDocument_Inr [OF ok]
  have chk: "DocCheckOverwrite now' newDoc ?k (nodeValue (node ?sl (ss ! l))) True
               = Inr (Some ?d', None, None)"
    using nd by (simp add: DocCheckOverwrite_def v [symmetric])
  let ?sl' = "bumpOpCount (setValue ?sl (ss ! l) (Some ?d'))"
  have up: "Upsert (Suc fuel) coins ?sl ?k (DocCheckOverwrite now' newDoc) = Inr (?sl', True, None)"
    using Upsert_present_update [of ?sl ?k fuel l ps ss "DocCheckOverwrite now' newDoc" "Some ?d'" coins]
      inv key f nf chk by blast
  have a: "ss ! l < length (nodes ?sl)" "nodeKey (node ?sl (ss ! l)) = ?k"
    using find_facts(3) [OF inv f, of l] find_facts(4) [OF inv f]
    by (simp_all add: levelOK_def live_def)
  have 1: "Collection_HandlePut (Suc fuel) coins codec now now' c req
            = Inr (c\<lparr>Documents := ?sl'\<rparr>, Some \<lparr>uri = ''/v1/'' @ joinWith ''/'' (GetPath req)\<rparr>,
                   \<lparr>status_class = ''Overwritten'', status_err = None\<rparr>)"
    using req ok up by (simp add: Collection_HandlePut_def childNameOf_def Let_def del: Upsert.simps)
  have 2: "Find fuel ?sl' ?k = Inr (Some ?d', True)"
    by (rule Find_updated_same [OF f a(1) nf(1) nm nf(2)])
  have 3: "\<forall>k'. k' \<noteq> ?k \<longrightarrow> Find fuel ?sl' k' = Find fuel ?sl k'"
    using Find_updated_other [OF inv, of "ss ! l"] a(2) by simp
  show ?thesis
    using 1 2 3
    by (intro exI [of _ "c\<lparr>Documents := ?sl'\<rparr>"] exI [of _ ?d']) simp
qed

section \<open>A PATCH that fails\<close>

lemma PatchRequest_fails:
  assumes "decodeJSON codec (Contents d) = Some j" "decodePatches codec body = Some ops"
  shows "applyPatches j ops = Inl e \<Longrightarrow> PatchRequest codec now d body validator name = Inl e"
    and "applyPatches j ops = Inr j' \<Longrightarrow> validator j' = Some ve \<Longrightarrow>
           PatchRequest codec now d body validator name
             = Inl (''validation failed after applying patches: '' @ ve)"
  using assms by (simp_all add: PatchRequest_def)

text \<open>
  Claim C2, as the code has it. A PATCH on a document that \<open>Find\<close> reports present, in a
  well-formed collection, whose \<open>PatchRequest\<close> fails (as it does when a patch operation
  fails or when the validator rejects the patched value) leaves the collection as it was,
  the document with its content and metadata included. \<open>Collection.HandlePatch\<close> reports
  the failure in its result and not by an error status: the status class is "Patched",
  which \<open>GetStatusCode\<close> maps to 200 and success, and in the body \<open>patch_failed\<close> is true
  and the message is the error. What \<open>HandleStorage\<close> writes after its follow-up GET is
  not part of the statement.
\<close>

theorem patch_failure_aborts:
  assumes inv: "sl_inv (Documents (c :: 'c Collection))"
    and key: "minKey (Documents c) < last (GetPath req)" "last (GetPath req) < maxKey (Documents c)"
    and req: "GetPath req \<noteq> []"
    and present: "Find fuel (Documents c) (last (GetPath req)) = Inr (Some d, True)"
    and fail: "PatchRequest codec now d (GetContent req) (GetValidator req) (GetUsername req) = Inl e"
  shows "Collection_HandlePatch (Suc fuel) coins codec now c req
           = Inr (c, \<lparr>Uri = ''/v1/'' @ joinWith ''/'' (GetPath req), PatchFailed = True, Message = e\<rparr>,
                  \<lparr>status_class = ''Patched'', status_err = None\<rparr>)
         \<and> GetStatusCode ''Patched'' = (200, True)
         \<and> (\<forall>j ops. decodeJSON codec (Contents d) = Some j
                \<and> decodePatches codec (GetContent req) = Some ops \<longrightarrow>
              (applyPatches j ops = Inl e \<or>
               (\<exists>j' ve. applyPatches j ops = Inr j' \<and> GetValidator req j' = Some ve
                   \<and> e = ''validation failed after applying patches: '' @ ve) \<or>
               (\<exists>j'. applyPatches j ops = Inr j' \<and> encodeJSON codec j' = None)))"
proof -
  have "Upsert (Suc fuel) coins (Documents c) (last (GetPath req))
          (DocPatchCheck codec now (GetContent req) (GetValidator req) (GetUsername req))
          = Inr (Documents c, True, Some e)"
    by (rule Upsert_error_unchanged [OF inv key, where cur = "Some d" and ex = True and ret = None])
       (simp_all add: DocPatchCheck_def present fail)
  then have 1: "Collection_HandlePatch (Suc fuel) coins codec now c req
           = Inr (c, \<lparr>Uri = ''/v1/'' @ joinWith ''/'' (GetPath req), PatchFailed = True, Message = e\<rparr>,
                  \<lparr>status_class = ''Patched'', status_err = None\<rparr>)"
    using req by (simp add: Collection_HandlePatch_def childNameOf_def Let_def del: Upsert.simps)
  have 4: "\<forall>j ops. decodeJSON codec (Contents d) = Some j
                \<and> decodePatches codec (GetContent req) = Some ops \<longrightarrow>
              (applyPatches j ops = Inl e \<or>
               (\<exists>j' ve. applyPatches j ops = Inr j' \<and> GetValidator req j' = Some ve
                   \<and> e = ''validation failed after applying patches: '' @ ve) \<or>
               (\<exists>j'. applyPatches j ops = Inr j' \<and> encodeJSON codec j' = None))"
    using fail by (auto simp: PatchRequest_def split: sum.splits option.splits)
  show ?thesis
    using 1 4 by (simp add: GetStatusCode_def)
qed

theorem put_overwrite_frame_witness:
  "sl_inv (Documents oneDocument) \<and> \<not> GetNoOverwrite putDoc1Again
   \<and> last (GetPath putDoc1Again) = ''doc1''
   \<and> minKey (Documents oneDocument) < ''doc1'' \<and> ''doc1'' < maxKey (Documents oneDocument)
   \<and> Find fuel5 (Documents oneDocument) ''doc1'' = Inr (Some doc1, True)
   \<and> CreatedAt (Meta doc1) \<le> 2000
   \<and> (\<exists>c'. Collection_HandlePut (Suc fuel5) [] demoCodec 2000 2000 oneDocument putDoc1Again
              = Inr (c', Some \<lparr>uri = ''/v1/db/doc/col/doc1''\<rparr>,
                     \<lparr>status_class = ''Overwritten'', status_err = None\<rparr>)
           \<and> Find fuel5 (Documents c') ''doc1''
              = Inr (Some (doc1\<lparr>Contents := ''{}'',
                                Meta := \<lparr>CreatedBy = ''alice'', CreatedAt = 1000,
                                         LastModifiedBy = ''bob'', LastModifiedAt = 2000\<rparr>\<rparr>),
                     True))"
proof -
  have r: "GetPath putDoc1Again \<noteq> []" "\<not> GetNoOverwrite putDoc1Again"
    "last (GetPath putDoc1Again) = ''doc1''" "GetContent putDoc1Again = ''{}''"
    "GetUsername putDoc1Again = ''bob''"
    "''/v1/'' @ joinWith ''/'' (GetPath putDoc1Again) = ''/v1/db/doc/col/doc1''"
    by (simp_all add: putDoc1Again_def putDoc1_def)
  have n: "NewDocument demoCodec 2000 (''/v1/'' @ joinWith ''/'' (GetPath putDoc1Again))
         (GetContent putDoc1Again) (GetUsername putDoc1Again) (GetValidator putDoc1Again)
        = Inr (doc1\<lparr>Contents := ''{}'',
                    Meta := \<lparr>CreatedBy = ''bob'', CreatedAt = 2000,
                             LastModifiedBy = ''bob'', LastModifiedAt = 2000\<rparr>\<rparr>)"
    by (simp add: putDoc1Again_def http_eval doc1_def)
  have m: "Meta doc1 = \<lparr>CreatedBy = ''alice'', CreatedAt = 1000,
                        LastModifiedBy = ''alice'', LastModifiedAt = 1000\<rparr>"
    by (simp add: doc1_def)
  have f: "Find fuel5 (Documents oneDocument) (last (GetPath putDoc1Again)) = Inr (Some doc1, True)"
    using oneDocument_Find r(3) by simp
  have k: "minKey (Documents oneDocument) < last (GetPath putDoc1Again)"
    "last (GetPath putDoc1Again) < maxKey (Documents oneDocument)"
    using oneDocument_keys r(3) by simp_all
  from put_overwrite_frame [OF oneDocument_inv k r(1,2) n f, of "[]" 2000]
  obtain c' d' where
    h: "Collection_HandlePut (Suc fuel5) [] demoCodec 2000 2000 oneDocument putDoc1Again
              = Inr (c', Some \<lparr>uri = ''/v1/'' @ joinWith ''/'' (GetPath putDoc1Again)\<rparr>,
                     \<lparr>status_class = ''Overwritten'', status_err = None\<rparr>)"
    and fd: "Find fuel5 (Documents c') (last (GetPath putDoc1Again)) = Inr (Some d', True)"
    and d': "d' = doc1\<lparr>Contents := GetContent putDoc1Again,
                    Meta := (Meta doc1)\<lparr>LastModifiedAt := 2000,
                                         LastModifiedBy := GetUsername putDoc1Again\<rparr>\<rparr>"
    by blast
  have "d' = doc1\<lparr>Contents := ''{}'',
                  Meta := \<lparr>CreatedBy = ''alice'', CreatedAt = 1000,
                           LastModifiedBy = ''bob'', LastModifiedAt = 2000\<rparr>\<rparr>"
    unfolding d' r(4,5) m by simp
  with h fd have "\<exists>c'. Collection_HandlePut (Suc fuel5) [] demoCodec 2000 2000 oneDocument putDoc1Again
              = Inr (c', Some \<lparr>uri = ''/v1/db/doc/col/doc1''\<rparr>,
                     \<lparr>status_class = ''Overwritten'', status_err = None\<rparr>)
           \<and> Find fuel5 (Documents c') ''doc1''
              = Inr (Some (doc1\<lparr>Contents := ''{}'',
                                Meta := \<lparr>CreatedBy = ''alice'', CreatedAt = 1000,
                                         LastModifiedBy = ''bob'', LastModifiedAt = 2000\<rparr>\<rparr>),
                     True)"
    unfolding r(3,6) by blast
  then show ?thesis
    using oneDocument_inv oneDocument_Find oneDocument_keys r m by simp
qed

lemma patchDoc1_fails:
  "PatchRequest demoCodec 3000 doc1 (GetContent patchDoc1) (GetValidator patchDoc1)
     (GetUsername patchDoc1)
   = Inl ''path refers to the whole document, which must be an object''"
  by (simp add: PatchRequest_def patchDoc1_def demoCodec_def doc1_def applyPatch_def
      parseJSONPointer_def applyObjectAdd_def)

theorem patch_failure_aborts_witness:
  "sl_inv (Documents oneDocument) \<and> last (GetPath patchDoc1) = ''doc1''
   \<and> minKey (Documents oneDocument) < ''doc1'' \<and> ''doc1'' < maxKey (Documents oneDocument)
   \<and> Find fuel5 (Documents oneDocument) ''doc1'' = Inr (Some doc1, True)
   \<and> PatchRequest demoCodec 3000 doc1 (GetContent patchDoc1) (GetValidator patchDoc1)
        (GetUsername patchDoc1)
      = Inl ''path refers to the whole document, which must be an object''
   \<and> Collection_HandlePatch (Suc fuel5) [] demoCodec 3000 oneDocument patchDoc1
      = Inr (oneDocument,
             \<lparr>Uri = ''/v1/db/doc/col/doc1'', PatchFailed = True,
              Message = ''path refers to the whole document, which must be an object''\<rparr>,
             \<lparr>status_class = ''Patched'', status_err = None\<rparr>)"
proof -
  have r: "GetPath patchDoc1 \<noteq> []" "last (GetPath patchDoc1) = ''doc1''"
    "''/v1/'' @ joinWith ''/'' (GetPath patchDoc1) = ''/v1/db/doc/col/doc1''"
    by (simp_all add: patchDoc1_def)
  have f: "Find fuel5 (Documents oneDocument) (last (GetPath patchDoc1)) = Inr (Some doc1, True)"
    using oneDocument_Find r(2) by simp
  have k: "minKey (Documents oneDocument) < last (GetPath patchDoc1)"
    "last (GetPath patchDoc1) < maxKey (Documents oneDocument)"
    using oneDocument_keys r(2) by simp_all
  from patch_failure_aborts [OF oneDocument_inv k r(1) f patchDoc1_fails, of "[]"]
  have "Collection_HandlePatch (Suc fuel5) [] demoCodec 3000 oneDocument patchDoc1
      = Inr (oneDocument,
             \<lparr>Uri = ''/v1/db/doc/col/doc1'', PatchFailed = True,
              Message = ''path refers to the whole document, which must be an object''\<rparr>,
             \<lparr>status_class = ''Patched'', status_err = None\<rparr>)"
    unfolding r(3) by blast
  then show ?thesis
    using oneDocument_inv oneDocument_Find oneDocument_keys r(2) patchDoc1_fails by simp
qed

text \<open>
  The claim as written fails on the status: for the PATCH with the empty pointer, the one
  of the specification's scenario 5, \<open>Collection.HandlePatch\<close> returns the class "Patched",
  which \<open>GetStatusCode\<close> maps to 200 and not to 400, while the collection stays as it was.
\<close>

theorem patch_failure_status_is_200:
  "Collection_HandlePatch (Suc fuel5) [] demoCodec 3000 oneDocument patchDoc1
     = Inr (oneDocument,
            \<lparr>Uri = ''/v1/db/doc/col/doc1'', PatchFailed = True,
             Message = ''path refers to the whole document, which must be an object''\<rparr>,
            \<lparr>status_class = ''Patched'', status_err = None\<rparr>)
   \<and> fst (GetStatusCode ''Patched'') = 200 \<and> fst (GetStatusCode ''Patched'') \<noteq> 400"
  by (simp add: Collection_HandlePatch_def patchDoc1_def oneDocument_docs
      DocPatchCheck_def PatchRequest_def doc1_def applyPatch_def
      parseJSONPointer_def applyObjectAdd_def sl_eval http_eval GetStatusCode_def)

section \<open>Where the code departs from the specification\<close>

lemma docNames:
  "generateRandomDocName 1730000000000000001 = ''doc_1730000000000000001''"
  "generateRandomDocName 1730000000000000002 = ''doc_1730000000000000002''"
  by (simp_all add: generateRandomDocName_def decimalInt_def decimalNat.simps)

lemma twentyTwice_eq:
  "twentyTwice =
     \<lparr>slMaxLevel = 2, head = 0, tail = 1, opCount = 4, maxKey = 100, minKey = 0,
      nodes =
        [\<lparr>mu = False, nodeKey = 0, nodeValue = None, maxLevel = 2, isMarked = False,
          isFullyLinked = False, nextNodes = [Some 2, Some 5, Some 1]\<rparr>,
         \<lparr>mu = False, nodeKey = 100, nodeValue = None, maxLevel = 2, isMarked = False,
          isFullyLinked = False, nextNodes = [None, None, None]\<rparr>,
         \<lparr>mu = False, nodeKey = 10, nodeValue = Some ''ten'', maxLevel = 0, isMarked = False,
          isFullyLinked = True, nextNodes = [Some 5]\<rparr>,
         \<lparr>mu = True, nodeKey = 20, nodeValue = Some ''twenty'', maxLevel = 1, isMarked = False,
          isFullyLinked = True, nextNodes = [Some 4, Some 1]\<rparr>,
         \<lparr>mu = False, nodeKey = 30, nodeValue = Some ''thirty'', maxLevel = 0, isMarked = False,
          isFullyLinked = True, nextNodes = [Some 1]\<rparr>,
         \<lparr>mu = False, nodeKey = 20, nodeValue = Some ''TWENTY'', maxLevel = 1, isMarked = False,
          isFullyLinked = True, nextNodes = [Some 3, Some 3]\<rparr>]\<rparr>"
  by (simp add: twentyTwice_def threeKeys_eq sl_eval replaceCheck_def)

text \<open>
  Claim C1 fails on the code. On the list with the keys 10, 20 and 30, \<open>Upsert\<close> on the key
  20 with a check that returns a value reports a new node (\<open>updated\<close> is false) and splices a
  second node with the key 20 in front of the first: both are fully linked and unmarked,
  and a scan of the whole list returns both values. The first node keeps its lock, so
  that after a \<open>Delete\<close> of the new node a further \<open>Delete\<close> of the key never returns.
\<close>

theorem Upsert_value_on_present_key_duplicates:
  "Find fuel5 threeKeys 20 = Inr (Some ''twenty'', True)
   \<and> replaceCheck ''TWENTY'' (20::int) (Some ''twenty'') True = Inr (Some ''twenty'', Some ''TWENTY'', None)
   \<and> Upsert fuel5 [] threeKeys 20 (replaceCheck ''TWENTY'') = Inr (twentyTwice, False, None)
   \<and> liveKeys threeKeys = [10, 20, 30]
   \<and> liveKeys twentyTwice = [10, 20, 30, 20]
   \<and> queryScan (Suc fuel5) twentyTwice 0 100
        = Inr [(10, ''ten''), (20, ''TWENTY''), (20, ''twenty''), (30, ''thirty'')]
   \<and> mu (node twentyTwice 3)
   \<and> Delete fuel5 (deleted twentyTwice 20) 20 = Inl Deadlock"
proof -
  have 1: "Find fuel5 threeKeys 20 = Inr (Some ''twenty'', True)"
    by (simp add: threeKeys_eq sl_eval Find_def)
  have 2: "Upsert fuel5 [] threeKeys 20 (replaceCheck ''TWENTY'') = Inr (twentyTwice, False, None)"
    unfolding twentyTwice_eq by (simp add: threeKeys_eq sl_eval replaceCheck_def)
  have 3: "liveKeys threeKeys = [10, 20, 30]" "liveKeys twentyTwice = [10, 20, 30, 20]"
    by (simp_all add: liveKeys_def threeKeys_eq twentyTwice_eq)
  have 4: "queryScan (Suc fuel5) twentyTwice 0 100
        = Inr [(10, ''ten''), (20, ''TWENTY''), (20, ''twenty''), (30, ''thirty'')]"
    by (simp add: twentyTwice_eq sl_eval)
  have 5: "mu (node twentyTwice 3)"
    by (simp add: twentyTwice_eq node_def eval_nat_numeral)
  have 6: "Delete fuel5 (deleted twentyTwice 20) 20 = Inl Deadlock"
    by (simp add: twentyTwice_eq deleted_def sl_eval)
  show ?thesis using 1 2 3 4 5 6 by (simp add: replaceCheck_def)
qed

text \<open>
  \<open>Delete\<close> returns no error on any path, so \<open>Document.HandleDelete\<close>, which tests the
  error only, answers "Deleted" whenever it returns.
\<close>

lemma Delete_no_error: "Delete fuel sl key = Inr (sl', removed, e) \<Longrightarrow> e = None"
proof (induction fuel arbitrary: sl)
  case 0
  then show ?case by simp
next
  case (Suc fuel)
  then show ?case
    by (auto simp: Let_def split: sum.splits option.splits prod.splits if_splits)
qed

lemma Document_HandleDelete_always_Deleted:
  "Document_HandleDelete fuel doc req = Inr (doc', st)
     \<Longrightarrow> st = \<lparr>status_class = ''Deleted'', status_err = None\<rparr>"
  by (auto simp: Document_HandleDelete_def dest: Delete_no_error split: sum.splits option.splits)

text \<open>
  Claim C3 fails on the code for the collections of a document.
  \<open>Document.HandleDelete\<close> looks at the error of \<open>Delete\<close>, which is always nil, and not at
  its boolean: the DELETE of a collection that the document does not have is answered
  "Deleted", that is 204. \<open>Collection.HandleDelete\<close> answers the DELETE of a document that
  the collection does not have with "Does Not Exist", that is 404.
\<close>

theorem Document_HandleDelete_absent_is_204:
  "absent fuel5 (Collections doc1) ''nocol''
   \<and> last (GetPath deleteNoCol) = ''nocol''
   \<and> Document_HandleDelete (Suc fuel5) doc1 deleteNoCol
        = Inr (doc1, \<lparr>status_class = ''Deleted'', status_err = None\<rparr>)
   \<and> fst (GetStatusCode ''Deleted'') = 204
   \<and> Collection_HandleDelete (Suc fuel5) oneDocument deleteNoDoc
        = Inr (oneDocument,
               \<lparr>status_class = ''Does Not Exist'',
                status_err = Some ''Document does not exist nocol not found''\<rparr>)
   \<and> fst (GetStatusCode ''Does Not Exist'') = 404"
proof -
  have 1: "absent fuel5 (Collections doc1) ''nocol''"
    by (simp add: absent_def doc1_def sl_eval http_eval)
  have 2: "Document_HandleDelete (Suc fuel5) doc1 deleteNoCol
        = Inr (doc1, \<lparr>status_class = ''Deleted'', status_err = None\<rparr>)"
    by (simp add: Document_HandleDelete_def doc1_def deleteNoCol_def sl_eval http_eval)
  have 3: "Collection_HandleDelete (Suc fuel5) oneDocument deleteNoDoc
        = Inr (oneDocument,
               \<lparr>status_class = ''Does Not Exist'',
                status_err = Some ''Document does not exist nocol not found''\<rparr>)"
    by (simp add: Collection_HandleDelete_def oneDocument_docs doc1_def deleteNoDoc_def
        deleteNoCol_def sl_eval http_eval)
  show ?thesis using 1 2 3 by (simp add: GetStatusCode_def deleteNoCol_def)
qed

lemma twoNamed_eq:
  "twoNamed =
     \<lparr>ColPath = ''/v1/db/doc/col'', Name = ''col'',
      Documents =
        \<lparr>slMaxLevel = 10, head = 0, tail = 1, opCount = 2, maxKey = maxSentinel,
         minKey = minSentinel,
         nodes =
           [\<lparr>mu = False, nodeKey = minSentinel, nodeValue = None, maxLevel = 10,
             isMarked = False, isFullyLinked = False,
             nextNodes = [Some 2, Some 1, Some 1, Some 1, Some 1, Some 1, Some 1, Some 1,
                          Some 1, Some 1, Some 1]\<rparr>,
            \<lparr>mu = False, nodeKey = maxSentinel, nodeValue = None, maxLevel = 10,
             isMarked = False, isFullyLinked = False,
             nextNodes = [None, None, None, None, None, None, None, None, None, None, None]\<rparr>,
            \<lparr>mu = False, nodeKey = ''doc_1730000000000000001'',
             nodeValue = Some (doc1\<lparr>DocPath := ''/v1/db/doc/col/doc_1730000000000000001''\<rparr>),
             maxLevel = 0, isMarked = False, isFullyLinked = True, nextNodes = [Some 3]\<rparr>,
            \<lparr>mu = False, nodeKey = ''doc_1730000000000000002'',
             nodeValue = Some (doc1\<lparr>DocPath := ''/v1/db/doc/col/doc_1730000000000000002''\<rparr>),
             maxLevel = 0, isMarked = False, isFullyLinked = True, nextNodes = [Some 1]\<rparr>]\<rparr>\<rparr>"
  by (simp add: twoNamed_def collectionAfterPut_def putNamed_def docNames doc1_def sl_eval
      http_eval)

lemma twoNamed_inv: "sl_inv (Documents twoNamed)"
  by (simp add: twoNamed_eq sl_inv_def nodeOK_def linkOK_def live_def node_def minSentinel_def
      maxSentinel_def eval_nat_numeral)

lemma twoNamed_Find:
  "Find fuel5 (Documents twoNamed) ''doc_1730000000000000001''
     = Inr (Some (doc1\<lparr>DocPath := ''/v1/db/doc/col/doc_1730000000000000001''\<rparr>), True)"
  "Find fuel5 (Documents twoNamed) ''doc_1730000000000000002''
     = Inr (Some (doc1\<lparr>DocPath := ''/v1/db/doc/col/doc_1730000000000000002''\<rparr>), True)"
  by (simp_all add: twoNamed_eq Find_def minSentinel_def maxSentinel_def sl_eval)

lemma twoNamed_keys:
  "minKey (Documents twoNamed) < ''doc_1730000000000000001''"
  "''doc_1730000000000000001'' < maxKey (Documents twoNamed)"
  "minKey (Documents twoNamed) < ''doc_1730000000000000002''"
  "''doc_1730000000000000002'' < maxKey (Documents twoNamed)"
  by (simp_all add: twoNamed_eq minSentinel_def maxSentinel_def)

text \<open>
  When the two names that a POST generates are both taken, each \<open>Upsert\<close> returns the error
  of the no-overwrite check, and the body of the loop answers "Bad Request" after the
  second one.
\<close>

lemma HandlePost_two_collisions:
  assumes inv: "sl_inv (Documents (c :: 'c Collection))"
    and k1: "minKey (Documents c) < generateRandomDocName nano"
      "generateRandomDocName nano < maxKey (Documents c)"
    and k2: "minKey (Documents c) < generateRandomDocName nano'"
      "generateRandomDocName nano' < maxKey (Documents c)"
    and f1: "Find fuel (Documents c) (generateRandomDocName nano) = Inr (Some d1, True)"
    and f2: "Find fuel (Documents c) (generateRandomDocName nano') = Inr (Some d2, True)"
    and n1: "NewDocument codec now (''/v1/'' @ Name c @ ''/'' @ generateRandomDocName nano)
               (GetContent req) (GetUsername req) (GetValidator req) = Inr (new1 :: 'c Document)"
    and n2: "NewDocument codec now' (''/v1/'' @ Name c @ ''/'' @ generateRandomDocName nano')
               (GetContent req) (GetUsername req) (GetValidator req) = Inr (new2 :: 'c Document)"
  shows "Collection_HandlePost (Suc fuel) coins codec nano now nano' now' c req
           = Inr (c, None, \<lparr>status_class = ''Bad Request'',
                             status_err = Some ''document already exists''\<rparr>)"
proof -
  have u1: "Upsert (Suc fuel) coins (Documents c) (generateRandomDocName nano)
              (DocCheckNoOverwrite new1) = Inr (Documents c, True, Some ''document already exists'')"
    by (rule Upsert_error_unchanged [OF inv k1, where cur = "Some d1" and ex = True and ret = None])
       (simp_all add: DocCheckNoOverwrite_def f1)
  have u2: "Upsert (Suc fuel) coins (Documents c) (generateRandomDocName nano')
              (DocCheckNoOverwrite new2) = Inr (Documents c, True, Some ''document already exists'')"
    by (rule Upsert_error_unchanged [OF inv k2, where cur = "Some d2" and ex = True and ret = None])
       (simp_all add: DocCheckNoOverwrite_def f2)
  show ?thesis
    using n1 n2 u1 u2 by (simp add: Collection_HandlePost_def Let_def del: Upsert.simps)
qed

text \<open>
  Claim C8 fails on the code when the generated name collides twice. The collection holds
  documents under the names generated for two clock readings; a POST that reads these two
  values is answered "Bad Request" after the second collision, with no third name tried
  and no document created.
\<close>

theorem HandlePost_second_collision_is_400:
  "generateRandomDocName 1730000000000000001 = ''doc_1730000000000000001''
   \<and> generateRandomDocName 1730000000000000002 = ''doc_1730000000000000002''
   \<and> liveKeys (Documents twoNamed) = [''doc_1730000000000000001'', ''doc_1730000000000000002'']
   \<and> Collection_HandlePost (Suc fuel5) [] demoCodec 1730000000000000001 1730000000000
        1730000000000000002 1730000000000 twoNamed postDoc
      = Inr (twoNamed, None,
             \<lparr>status_class = ''Bad Request'', status_err = Some ''document already exists''\<rparr>)
   \<and> fst (GetStatusCode ''Bad Request'') = 400"
proof -
  have 1: "liveKeys (Documents twoNamed) = [''doc_1730000000000000001'', ''doc_1730000000000000002'']"
    by (simp add: liveKeys_def twoNamed_eq)
  have n: "\<exists>new. NewDocument demoCodec 1730000000000
             (''/v1/'' @ Name twoNamed @ ''/'' @ generateRandomDocName 1730000000000000001)
             (GetContent postDoc) (GetUsername postDoc) (GetValidator postDoc) = Inr new"
    "\<exists>new. NewDocument demoCodec 1730000000000
             (''/v1/'' @ Name twoNamed @ ''/'' @ generateRandomDocName 1730000000000000002)
             (GetContent postDoc) (GetUsername postDoc) (GetValidator postDoc) = Inr new"
    by (simp_all add: NewDocument_def postDoc_def demoCodec_def acceptAll_def)
  have 2: "Collection_HandlePost (Suc fuel5) [] demoCodec 1730000000000000001 1730000000000
        1730000000000000002 1730000000000 twoNamed postDoc
      = Inr (twoNamed, None,
             \<lparr>status_class = ''Bad Request'', status_err = Some ''document already exists''\<rparr>)"
    using n twoNamed_inv twoNamed_keys twoNamed_Find
      HandlePost_two_collisions [of twoNamed 1730000000000000001 1730000000000000002 fuel5 _ _
        demoCodec 1730000000000 postDoc _ 1730000000000 _ "[]"]
    unfolding docNames by blast
  show ?thesis using 1 2 docNames by (simp add: GetStatusCode_def)
qed


text \<open>
  The descent of the scans starts one level below \<open>maxLevel\<close>. On a list built with
  \<open>maxLevel = 0\<close> it visits no level, the scan starts at the first node, and the lower bound
  is not looked at: the scan of \<open>[20, 40)\<close> returns the value under the key 10.
\<close>

lemma singleLevel_eq:
  "singleLevel =
     \<lparr>slMaxLevel = 0, head = 0, tail = 1, opCount = 1, maxKey = 100, minKey = 0,
      nodes =
        [\<lparr>mu = False, nodeKey = 0, nodeValue = None, maxLevel = 0, isMarked = False,
          isFullyLinked = False, nextNodes = [Some 2]\<rparr>,
         \<lparr>mu = False, nodeKey = 100, nodeValue = None, maxLevel = 0, isMarked = False,
          isFullyLinked = False, nextNodes = [None]\<rparr>,
         \<lparr>mu = False, nodeKey = 10, nodeValue = Some ''ten'', maxLevel = 0, isMarked = False,
          isFullyLinked = True, nextNodes = [Some 1]\<rparr>]\<rparr>"
  by (simp add: singleLevel_def sl_eval NewNoOverwriteCheck_def)

lemma singleLevel_scan:
  "sl_inv singleLevel"
  "queryScan fuel5 singleLevel 20 40 = Inr [(10, ''ten'')]"
  "Query fuel5 singleLevel 20 40 = Inr [''ten'']"
  by (simp_all add: singleLevel_eq sl_eval Query_def sl_inv_def nodeOK_def linkOK_def live_def)

end
